theory Spec2Isabelle
  imports Main
begin

section \<open>Token model\<close>

text \<open>
  The enumeration \<open>TokenType\<close> of \<^verbatim>\<open>lexical_analyzer.py\<close>, its members in declaration
  order (the order in which \<^verbatim>\<open>for token_type in TokenType\<close> visits them) and the
  value string of each member. The member \<^verbatim>\<open>INT\<close> is \<open>INT_KW\<close> here.
\<close>

datatype TokenType =
    LPAREN | RPAREN | LBRACE | RBRACE | COMMA | SEMICOLON | PLUS | MINUS | STAR | SLASH
  | PERCENT | LESS | GREATER | EQUAL | BANG | LBRACKET | RBRACKET
  | LE | GE | EQ | NE | OR | AND
  | IF | ELSE | WHILE | FOR | RETURN | BREAK | NEW | SIZE
  | VOID | BOOL | INT_KW | FLOAT
  | BOOL_LIT | INT_LIT | FLOAT_LIT | IDENTIFIER
  | EOF

definition TokenType_members :: "TokenType list" where
  "TokenType_members =
     [LPAREN, RPAREN, LBRACE, RBRACE, COMMA, SEMICOLON, PLUS, MINUS, STAR, SLASH,
      PERCENT, LESS, GREATER, EQUAL, BANG, LBRACKET, RBRACKET,
      LE, GE, EQ, NE, OR, AND,
      IF, ELSE, WHILE, FOR, RETURN, BREAK, NEW, SIZE,
      VOID, BOOL, INT_KW, FLOAT,
      BOOL_LIT, INT_LIT, FLOAT_LIT, IDENTIFIER,
      EOF]"

fun TokenType_value :: "TokenType \<Rightarrow> string" where
  "TokenType_value LPAREN = ''(''"
| "TokenType_value RPAREN = '')''"
| "TokenType_value LBRACE = ''{''"
| "TokenType_value RBRACE = ''}''"
| "TokenType_value COMMA = '',''"
| "TokenType_value SEMICOLON = '';''"
| "TokenType_value PLUS = ''+''"
| "TokenType_value MINUS = ''-''"
| "TokenType_value STAR = ''*''"
| "TokenType_value SLASH = ''/''"
| "TokenType_value PERCENT = ''%''"
| "TokenType_value LESS = ''<''"
| "TokenType_value GREATER = ''>''"
| "TokenType_value EQUAL = ''=''"
| "TokenType_value BANG = ''!''"
| "TokenType_value LBRACKET = ''[''"
| "TokenType_value RBRACKET = '']''"
| "TokenType_value LE = ''<=''"
| "TokenType_value GE = ''>=''"
| "TokenType_value EQ = ''==''"
| "TokenType_value NE = ''!=''"
| "TokenType_value OR = ''||''"
| "TokenType_value AND = ''&&''"
| "TokenType_value IF = ''if''"
| "TokenType_value ELSE = ''else''"
| "TokenType_value WHILE = ''while''"
| "TokenType_value FOR = ''for''"
| "TokenType_value RETURN = ''return''"
| "TokenType_value BREAK = ''break''"
| "TokenType_value NEW = ''new''"
| "TokenType_value SIZE = ''size''"
| "TokenType_value VOID = ''void''"
| "TokenType_value BOOL = ''bool''"
| "TokenType_value INT_KW = ''int''"
| "TokenType_value FLOAT = ''float''"
| "TokenType_value BOOL_LIT = ''BOOL_LIT''"
| "TokenType_value INT_LIT = ''INT_LIT''"
| "TokenType_value FLOAT_LIT = ''FLOAT_LIT''"
| "TokenType_value IDENTIFIER = ''IDENTIFIER''"
| "TokenType_value EOF = ''EOF''"

text \<open>Class \<open>Token\<close>: type, value, line, column.\<close>

datatype Token = Token (tok_type: TokenType) (tok_value: string) (tok_line: int) (tok_column: int)

text \<open>Class \<open>LexicalError\<close>: message, line, column.\<close>

datatype LexicalError = LexicalError (message: string) (err_line: int) (err_column: int)

section \<open>Symbol table\<close>

text \<open>
  Class \<open>SymbolInfo\<close>. \<open>SymbolInfo_init\<close> is its \<^verbatim>\<open>__init__\<close> with the default
  \<^verbatim>\<open>is_local = True\<close>; \<^verbatim>\<open>return_type = None\<close> is \<open>None\<close>.
\<close>

record SymbolInfo =
  name :: string
  info_type :: string
  is_local :: bool
  array_length :: int
  return_type :: "string option"
  param_types :: "string list"
  local_var_count :: int

definition SymbolInfo_init :: "string \<Rightarrow> string \<Rightarrow> SymbolInfo" where
  "SymbolInfo_init n t =
     \<lparr>name = n, info_type = t, is_local = True, array_length = - 1,
      return_type = None, param_types = [], local_var_count = 0\<rparr>"

text \<open>
  A Python dict keeps its keys in insertion order and assigning to an existing key
  keeps the key's place: \<open>dict_set\<close> is \<^verbatim>\<open>d[k] = v\<close> on the list of items.
\<close>

fun dict_set :: "('k \<times> 'v) list \<Rightarrow> 'k \<Rightarrow> 'v \<Rightarrow> ('k \<times> 'v) list" where
  "dict_set [] k v = [(k, v)]"
| "dict_set ((k', v') # d) k v = (if k' = k then (k, v) # d else (k', v') # dict_set d k v)"

text \<open>Class \<open>SymbolTable\<close>: the dict \<open>symbols\<close>, the parent scope and the scope's name.\<close>

datatype SymbolTable =
  SymbolTable (symbols: "(string \<times> SymbolInfo) list") (parent: "SymbolTable option")
    (scope_name: string)

definition SymbolTable_init :: "string \<Rightarrow> SymbolTable" where
  "SymbolTable_init n = SymbolTable [] None n"

definition insert_symbol :: "SymbolTable \<Rightarrow> string \<Rightarrow> SymbolInfo \<Rightarrow> SymbolTable" where
  "insert_symbol t n info = SymbolTable (dict_set (symbols t) n info) (parent t) (scope_name t)"

fun lookup :: "SymbolTable \<Rightarrow> string \<Rightarrow> SymbolInfo option" where
  "lookup (SymbolTable syms par nm) n =
     (case map_of syms n of
        Some info \<Rightarrow> Some info
      | None \<Rightarrow> (case par of Some p \<Rightarrow> lookup p n | None \<Rightarrow> None))"

section \<open>Character classes\<close>

text \<open>
  A source text is a \<open>string\<close>: a list of characters with code points 0 to 255. On these
  code points the predicates below are Python's \<^verbatim>\<open>str.isspace\<close>, \<^verbatim>\<open>str.isdigit\<close>,
  \<^verbatim>\<open>str.isalpha\<close> and \<^verbatim>\<open>str.isalnum\<close>.
\<close>

definition isspace :: "char \<Rightarrow> bool" where
  "isspace c = (let n = (of_char c :: nat) in
     (9 \<le> n \<and> n \<le> 13) \<or> (28 \<le> n \<and> n \<le> 32) \<or> n = 133 \<or> n = 160)"

definition isdigit :: "char \<Rightarrow> bool" where
  "isdigit c = (let n = (of_char c :: nat) in
     (48 \<le> n \<and> n \<le> 57) \<or> n = 178 \<or> n = 179 \<or> n = 185)"

definition isalpha :: "char \<Rightarrow> bool" where
  "isalpha c = (let n = (of_char c :: nat) in
     (65 \<le> n \<and> n \<le> 90) \<or> (97 \<le> n \<and> n \<le> 122) \<or> n = 170 \<or> n = 181 \<or> n = 186 \<or>
     (192 \<le> n \<and> n \<le> 214) \<or> (216 \<le> n \<and> n \<le> 246) \<or> (248 \<le> n \<and> n \<le> 255))"

definition isalnum :: "char \<Rightarrow> bool" where
  "isalnum c = (let n = (of_char c :: nat) in
     isalpha c \<or> isdigit c \<or> (188 \<le> n \<and> n \<le> 190))"

definition endswith :: "string \<Rightarrow> string \<Rightarrow> bool" where
  "endswith xs suf = (length suf \<le> length xs \<and> drop (length xs - length suf) xs = suf)"

section \<open>The scanner\<close>

definition KEYWORDS :: "(string \<times> TokenType) list" where
  "KEYWORDS =
     [(''if'', IF), (''else'', ELSE), (''while'', WHILE), (''for'', FOR),
      (''return'', RETURN), (''break'', BREAK), (''new'', NEW), (''size'', SIZE),
      (''void'', VOID), (''bool'', BOOL), (''int'', INT_KW), (''float'', FLOAT),
      (''true'', BOOL_LIT), (''false'', BOOL_LIT)]"

definition OPERATORS :: "(string \<times> TokenType) list" where
  "OPERATORS =
     [(''<='', LE), (''>='', GE), (''=='', EQ), (''!='', NE), (''||'', OR), (''&&'', AND)]"

text \<open>The fields of a \<open>LexicalAnalyzer\<close> object.\<close>

record LexicalAnalyzer =
  source :: string
  position :: nat
  line :: int
  column :: int
  tokens :: "Token list"
  symbol_table :: SymbolTable

definition initialize_built_in_functions :: "LexicalAnalyzer \<Rightarrow> LexicalAnalyzer" where
  "initialize_built_in_functions s =
     (let read_info = (SymbolInfo_init ''read'' ''function'')
            \<lparr>return_type := Some ''any'', param_types := [''void'']\<rparr>;
          s1 = s\<lparr>symbol_table := insert_symbol (symbol_table s) ''read'' read_info\<rparr>;
          write_info = (SymbolInfo_init ''write'' ''function'')
            \<lparr>return_type := Some ''void'', param_types := [''any'']\<rparr>
      in s1\<lparr>symbol_table := insert_symbol (symbol_table s1) ''write'' write_info\<rparr>)"

definition LexicalAnalyzer_init :: "string \<Rightarrow> LexicalAnalyzer" where
  "LexicalAnalyzer_init source_code =
     initialize_built_in_functions
       \<lparr>source = source_code, position = 0, line = 1, column = 1, tokens = [],
        symbol_table = SymbolTable_init ''global''\<rparr>"

text \<open>
  One consumed character of \<open>skip_whitespace\<close> and of the body of a block comment: a
  newline starts the next line at column 1, any other character is one more column.
\<close>

definition advance_char :: "LexicalAnalyzer \<Rightarrow> LexicalAnalyzer" where
  "advance_char s =
     (if source s ! position s = CHR 0x0A
      then s\<lparr>line := line s + 1, column := 1\<rparr>
      else s\<lparr>column := column s + 1\<rparr>)\<lparr>position := position s + 1\<rparr>"

function skip_whitespace :: "LexicalAnalyzer \<Rightarrow> LexicalAnalyzer" where
  "skip_whitespace s =
     (if position s < length (source s) \<and> isspace (source s ! position s)
      then skip_whitespace (advance_char s)
      else s)"
  by pat_completeness auto
termination
  by (relation "measure (\<lambda>s. length (source s) - position s)") (auto simp: advance_char_def)

function skip_line_comment_loop :: "LexicalAnalyzer \<Rightarrow> LexicalAnalyzer" where
  "skip_line_comment_loop s =
     (if position s < length (source s) \<and> source s ! position s \<noteq> CHR 0x0A
      then skip_line_comment_loop (s\<lparr>position := position s + 1\<rparr>)
      else s)"
  by pat_completeness auto
termination
  by (relation "measure (\<lambda>s. length (source s) - position s)") auto

definition skip_line_comment :: "LexicalAnalyzer \<Rightarrow> LexicalAnalyzer" where
  "skip_line_comment s = skip_line_comment_loop (s\<lparr>position := position s + 2\<rparr>)"

text \<open>
  \<open>skip_block_comment\<close> returns normally (\<open>Inr ()\<close>) at the closing \<^verbatim>\<open>*/\<close> and raises when
  the loop runs out. The loop condition \<^verbatim>\<open>position < len(source) - 1\<close> is over Python's
  integers, hence \<open>position + 1 < length\<close> here.
\<close>

function skip_block_comment_loop ::
  "LexicalAnalyzer \<Rightarrow> (LexicalError + unit) \<times> LexicalAnalyzer" where
  "skip_block_comment_loop s =
     (if position s + 1 < length (source s)
      then if source s ! position s = CHR ''*'' \<and> source s ! (position s + 1) = CHR ''/''
           then (Inr (), s\<lparr>position := position s + 2\<rparr>)
           else skip_block_comment_loop (advance_char s)
      else (Inl (LexicalError ''Unterminated block comment'' (line s) (column s)), s))"
  by pat_completeness auto
termination
  by (relation "measure (\<lambda>s. length (source s) - position s)") (auto simp: advance_char_def)

definition skip_block_comment ::
  "LexicalAnalyzer \<Rightarrow> (LexicalError + unit) \<times> LexicalAnalyzer" where
  "skip_block_comment s = skip_block_comment_loop (s\<lparr>position := position s + 2\<rparr>)"

function scan_number_loop ::
  "LexicalAnalyzer \<Rightarrow> string \<Rightarrow> bool \<Rightarrow> LexicalAnalyzer \<times> string \<times> bool" where
  "scan_number_loop s number is_float =
     (if position s < length (source s)
      then if isdigit (source s ! position s)
           then scan_number_loop (s\<lparr>position := position s + 1, column := column s + 1\<rparr>)
                  (number @ [source s ! position s]) is_float
           else if source s ! position s = CHR ''.'' \<and> \<not> is_float
           then scan_number_loop (s\<lparr>position := position s + 1, column := column s + 1\<rparr>)
                  (number @ [source s ! position s]) True
           else (s, number, is_float)
      else (s, number, is_float))"
  by pat_completeness auto
termination
  by (relation "measure (\<lambda>(s, number, is_float). length (source s) - position s)") auto

definition scan_number :: "LexicalAnalyzer \<Rightarrow> (LexicalError + Token) \<times> LexicalAnalyzer" where
  "scan_number s =
     (let start_column = column s in
      case scan_number_loop s [] False of (s', number, is_float) \<Rightarrow>
        if is_float
        then if endswith number ''.''
             then (Inl (LexicalError ''Invalid float literal'' (line s') start_column), s')
             else (Inr (Token FLOAT_LIT number (line s') start_column), s')
        else (Inr (Token INT_LIT number (line s') start_column), s'))"

function scan_identifier_loop :: "LexicalAnalyzer \<Rightarrow> string \<Rightarrow> LexicalAnalyzer \<times> string" where
  "scan_identifier_loop s identifier =
     (if position s < length (source s)
      then if isalnum (source s ! position s) \<or> source s ! position s = CHR ''_''
           then scan_identifier_loop (s\<lparr>position := position s + 1, column := column s + 1\<rparr>)
                  (identifier @ [source s ! position s])
           else (s, identifier)
      else (s, identifier))"
  by pat_completeness auto
termination
  by (relation "measure (\<lambda>(s, identifier). length (source s) - position s)") auto

definition scan_identifier :: "LexicalAnalyzer \<Rightarrow> (LexicalError + Token) \<times> LexicalAnalyzer" where
  "scan_identifier s =
     (let start_column = column s in
      case scan_identifier_loop s [] of (s', identifier) \<Rightarrow>
        (case map_of KEYWORDS identifier of
           Some kw \<Rightarrow> (Inr (Token kw identifier (line s') start_column), s')
         | None \<Rightarrow>
             (let s'' = (if lookup (symbol_table s') identifier = None
                         then s'\<lparr>symbol_table :=
                                insert_symbol (symbol_table s') identifier
                                  (SymbolInfo_init identifier ''unknown'')\<rparr>
                         else s')
              in (Inr (Token IDENTIFIER identifier (line s'') start_column), s''))))"

text \<open>
  The part of \<open>next_token\<close> below the comment handling: numbers, identifiers and keywords,
  two-character operators, single-character tokens, and the unexpected character.
\<close>

definition scan_token :: "LexicalAnalyzer \<Rightarrow> (LexicalError + Token) \<times> LexicalAnalyzer" where
  "scan_token s =
     (let char = source s ! position s in
      if isdigit char then scan_number s
      else if isalpha char \<or> char = CHR ''_'' then scan_identifier s
      else if position s + 1 < length (source s) \<and>
              map_of OPERATORS (take 2 (drop (position s) (source s))) \<noteq> None
      then (let op = take 2 (drop (position s) (source s));
                s' = s\<lparr>position := position s + 2, column := column s + 2\<rparr>
            in (Inr (Token (the (map_of OPERATORS op)) op (line s') (column s' - 2)), s'))
      else (let s' = s\<lparr>position := position s + 1, column := column s + 1\<rparr>
            in case find (\<lambda>token_type. TokenType_value token_type = [char]) TokenType_members of
                 Some token_type \<Rightarrow> (Inr (Token token_type [char] (line s') (column s' - 1)), s')
               | None \<Rightarrow>
                   (Inl (LexicalError (''Unexpected character: '' @ [char]) (line s')
                          (column s' - 1)), s')))"

declare skip_whitespace.simps [simp del]
declare skip_line_comment_loop.simps [simp del]
declare skip_block_comment_loop.simps [simp del]
declare scan_number_loop.simps [simp del]
declare scan_identifier_loop.simps [simp del]

text \<open>
  What a call can raise: a \<open>LexicalError\<close> of the scanner, or Python's \<open>RecursionError\<close>
  when the interpreter has no stack frame left for a call.
\<close>

datatype PyException = Lexical LexicalError | RecursionError

definition raise_lexical :: "(LexicalError + 'a) \<times> 's \<Rightarrow> (PyException + 'a) \<times> 's" where
  "raise_lexical r = (case r of (Inl e, s) \<Rightarrow> (Inl (Lexical e), s) | (Inr x, s) \<Rightarrow> (Inr x, s))"

text \<open>
  \<open>next_token d s\<close> returns the token or the raised exception, together with the scanner
  state it leaves behind in either case. After a comment the source ends with
  \<^verbatim>\<open>return self.next_token()\<close>: a call that takes a new stack frame while the frames of
  the calls before it stay on the stack. The argument \<open>d\<close> is the number of activations
  of \<open>next_token\<close> for which the interpreter still has room on its stack (Python's
  recursion limit, 1000 unless it is reset, less the depth of the caller): a call with no
  room left raises \<open>RecursionError\<close> and leaves the scanner as it is. The other methods
  are called and return within one activation and make no recursive calls; their frames
  are taken to fit whenever the activation that calls them fits.
\<close>

fun next_token :: "nat \<Rightarrow> LexicalAnalyzer \<Rightarrow> (PyException + Token) \<times> LexicalAnalyzer" where
  "next_token 0 s = (Inl RecursionError, s)"
| "next_token (Suc d) s =
     (if position (skip_whitespace s) \<ge> length (source (skip_whitespace s))
      then (Inr (Token EOF '''' (line (skip_whitespace s)) (column (skip_whitespace s))),
            skip_whitespace s)
      else if source (skip_whitespace s) ! position (skip_whitespace s) = CHR ''/''
      then if position (skip_whitespace s) + 1 < length (source (skip_whitespace s))
           then if source (skip_whitespace s) ! (position (skip_whitespace s) + 1) = CHR ''/''
                then next_token d (skip_line_comment (skip_whitespace s))
                else if source (skip_whitespace s) ! (position (skip_whitespace s) + 1) = CHR ''*''
                then (case skip_block_comment (skip_whitespace s) of
                        (Inl e, s') \<Rightarrow> (Inl (Lexical e), s')
                      | (Inr u, s') \<Rightarrow> next_token d s')
                else raise_lexical (scan_token (skip_whitespace s))
           else raise_lexical (scan_token (skip_whitespace s))
      else raise_lexical (scan_token (skip_whitespace s)))"

text \<open>Python's default recursion limit.\<close>

definition recursion_limit :: nat where
  "recursion_limit = 1000"

section \<open>Cursor movement of the scanning loops\<close>

lemma advance_char_source [simp]: "source (advance_char s) = source s"
  by (simp add: advance_char_def)

lemma advance_char_position [simp]: "position (advance_char s) = position s + 1"
  by (simp add: advance_char_def)

lemma skip_whitespace_source [simp]: "source (skip_whitespace s) = source s"
  by (induction s rule: skip_whitespace.induct) (subst skip_whitespace.simps, simp)

lemma skip_whitespace_position: "position s \<le> position (skip_whitespace s)"
  by (induction s rule: skip_whitespace.induct) (subst skip_whitespace.simps, auto)

lemma skip_line_comment_loop_source [simp]: "source (skip_line_comment_loop s) = source s"
  by (induction s rule: skip_line_comment_loop.induct) (subst skip_line_comment_loop.simps, simp)

lemma skip_line_comment_loop_position: "position s \<le> position (skip_line_comment_loop s)"
  by (induction s rule: skip_line_comment_loop.induct) (subst skip_line_comment_loop.simps, auto)

lemma skip_line_comment_source [simp]: "source (skip_line_comment s) = source s"
  by (simp add: skip_line_comment_def)

lemma skip_line_comment_position: "position s + 2 \<le> position (skip_line_comment s)"
  using skip_line_comment_loop_position [of "s\<lparr>position := position s + 2\<rparr>"]
  by (simp add: skip_line_comment_def)

lemma skip_block_comment_loop_source [simp]:
  "source (snd (skip_block_comment_loop s)) = source s"
  by (induction s rule: skip_block_comment_loop.induct) (subst skip_block_comment_loop.simps, simp)

lemma skip_block_comment_loop_position:
  "position s \<le> position (snd (skip_block_comment_loop s))"
  by (induction s rule: skip_block_comment_loop.induct) (subst skip_block_comment_loop.simps, auto)

lemma skip_block_comment_source [simp]: "source (snd (skip_block_comment s)) = source s"
  by (simp add: skip_block_comment_def)

lemma skip_block_comment_position: "position s + 2 \<le> position (snd (skip_block_comment s))"
  using skip_block_comment_loop_position [of "s\<lparr>position := position s + 2\<rparr>"]
  by (simp add: skip_block_comment_def)


declare next_token.simps [simp del]

lemma scan_number_loop_source [simp]:
  "source (fst (scan_number_loop s number is_float)) = source s"
  by (induction s number is_float rule: scan_number_loop.induct)
     (subst scan_number_loop.simps, simp)

lemma scan_number_loop_position:
  "position s \<le> position (fst (scan_number_loop s number is_float))"
  by (induction s number is_float rule: scan_number_loop.induct)
     (subst scan_number_loop.simps, auto)

lemma scan_number_loop_advances:
  assumes "position s < length (source s)" and "isdigit (source s ! position s)"
  shows "position s < position (fst (scan_number_loop s number is_float))"
  using assms
    scan_number_loop_position
      [of "s\<lparr>position := position s + 1, column := column s + 1\<rparr>"
          "number @ [source s ! position s]" is_float]
  by (subst scan_number_loop.simps) simp

lemma scan_identifier_loop_source [simp]:
  "source (fst (scan_identifier_loop s acc)) = source s"
  by (induction s acc rule: scan_identifier_loop.induct)
     (subst scan_identifier_loop.simps, simp)

lemma scan_identifier_loop_position:
  "position s \<le> position (fst (scan_identifier_loop s acc))"
  by (induction s acc rule: scan_identifier_loop.induct)
     (subst scan_identifier_loop.simps, auto)

lemma isalpha_isalnum: "isalpha c \<Longrightarrow> isalnum c"
  by (simp add: isalnum_def)

lemma scan_identifier_loop_advances:
  assumes "position s < length (source s)"
    and "isalpha (source s ! position s) \<or> source s ! position s = CHR ''_''"
  shows "position s < position (fst (scan_identifier_loop s acc))"
  using assms
    scan_identifier_loop_position
      [of "s\<lparr>position := position s + 1, column := column s + 1\<rparr>"
          "acc @ [source s ! position s]"]
  by (subst scan_identifier_loop.simps) (auto simp: isalpha_isalnum)

lemma scan_number_source [simp]: "source (snd (scan_number s)) = source s"
  using scan_number_loop_source [of s "[]" False]
  by (simp add: scan_number_def Let_def split_def)

lemma scan_identifier_source [simp]: "source (snd (scan_identifier s)) = source s"
  using scan_identifier_loop_source [of s "[]"]
  by (simp add: scan_identifier_def Let_def split_def split: option.splits)

lemma scan_number_advances:
  assumes "position s < length (source s)" and "isdigit (source s ! position s)"
  shows "position s < position (snd (scan_number s))"
  using scan_number_loop_advances [OF assms, of "[]" False]
  by (simp add: scan_number_def Let_def split_def)

lemma scan_identifier_advances:
  assumes "position s < length (source s)"
    and "isalpha (source s ! position s) \<or> source s ! position s = CHR ''_''"
  shows "position s < position (snd (scan_identifier s))"
  using scan_identifier_loop_advances [OF assms, of "[]"]
  by (simp add: scan_identifier_def Let_def split_def split: option.splits)

lemma scan_token_source [simp]: "source (snd (scan_token s)) = source s"
  by (simp add: scan_token_def Let_def split: option.splits)

lemma scan_token_advances:
  assumes "position s < length (source s)"
  shows "position s < position (snd (scan_token s))"
  using assms scan_number_advances [of s] scan_identifier_advances [of s]
  by (simp add: scan_token_def Let_def split: option.splits)

section \<open>The cases of \<open>next_token\<close> and the driver loop\<close>

lemma raise_lexical_simps [simp]:
  "raise_lexical (Inl e, s) = (Inl (Lexical e), s)" "raise_lexical (Inr x, s) = (Inr x, s)"
  by (simp_all add: raise_lexical_def)

lemma snd_raise_lexical [simp]: "snd (raise_lexical r) = snd r"
  by (cases r, cases "fst r") auto

lemma raise_lexical_Inr [simp]: "raise_lexical r = (Inr x, s) \<longleftrightarrow> r = (Inr x, s)"
  by (cases r, cases "fst r") auto

lemma raise_lexical_Inl: "raise_lexical r = (Inl e', s) \<longleftrightarrow> (\<exists>e. e' = Lexical e \<and> r = (Inl e, s))"
  by (cases r, cases "fst r") auto

lemma raise_lexical_not_RecursionError [simp]: "fst (raise_lexical r) \<noteq> Inl RecursionError"
  by (cases r, cases "fst r") auto

definition at_line_comment :: "LexicalAnalyzer \<Rightarrow> bool" where
  "at_line_comment s \<longleftrightarrow>
     position s + 1 < length (source s) \<and> source s ! position s = CHR ''/'' \<and>
     source s ! (position s + 1) = CHR ''/''"

definition at_block_comment :: "LexicalAnalyzer \<Rightarrow> bool" where
  "at_block_comment s \<longleftrightarrow>
     position s + 1 < length (source s) \<and> source s ! position s = CHR ''/'' \<and>
     source s ! (position s + 1) = CHR ''*''"

lemma next_token_exhausted: "next_token 0 s = (Inl RecursionError, s)"
  by (simp add: next_token.simps)

lemma next_token_eof:
  "length (source s) \<le> position (skip_whitespace s) \<Longrightarrow>
   next_token (Suc d) s =
     (Inr (Token EOF [] (line (skip_whitespace s)) (column (skip_whitespace s))),
      skip_whitespace s)"
  by (simp add: next_token.simps)

lemma next_token_line_comment:
  "at_line_comment (skip_whitespace s) \<Longrightarrow>
   next_token (Suc d) s = next_token d (skip_line_comment (skip_whitespace s))"
  by (simp add: next_token.simps at_line_comment_def)

lemma next_token_block_comment:
  "at_block_comment (skip_whitespace s) \<Longrightarrow>
   next_token (Suc d) s =
     (case skip_block_comment (skip_whitespace s) of
        (Inl e, s') \<Rightarrow> (Inl (Lexical e), s')
      | (Inr u, s') \<Rightarrow> next_token d s')"
  by (simp add: next_token.simps at_block_comment_def)

lemma next_token_scan_token:
  "position (skip_whitespace s) < length (source s) \<Longrightarrow>
   \<not> at_line_comment (skip_whitespace s) \<Longrightarrow> \<not> at_block_comment (skip_whitespace s) \<Longrightarrow>
   next_token (Suc d) s = raise_lexical (scan_token (skip_whitespace s))"
  by (auto simp: next_token.simps at_line_comment_def at_block_comment_def)

lemma next_token_induct
  [case_names exhausted eof line_comment block_error block_comment token]:
  assumes "\<And>s. P 0 s"
    and "\<And>d s. length (source s) \<le> position (skip_whitespace s) \<Longrightarrow> P (Suc d) s"
    and "\<And>d s. at_line_comment (skip_whitespace s) \<Longrightarrow>
           P d (skip_line_comment (skip_whitespace s)) \<Longrightarrow> P (Suc d) s"
    and "\<And>d s e s'. at_block_comment (skip_whitespace s) \<Longrightarrow>
           skip_block_comment (skip_whitespace s) = (Inl e, s') \<Longrightarrow> P (Suc d) s"
    and "\<And>d s s'. at_block_comment (skip_whitespace s) \<Longrightarrow>
           skip_block_comment (skip_whitespace s) = (Inr (), s') \<Longrightarrow> P d s' \<Longrightarrow> P (Suc d) s"
    and "\<And>d s. position (skip_whitespace s) < length (source s) \<Longrightarrow>
           \<not> at_line_comment (skip_whitespace s) \<Longrightarrow>
           \<not> at_block_comment (skip_whitespace s) \<Longrightarrow> P (Suc d) s"
  shows "P d s"
proof (induction d arbitrary: s)
  case 0
  show ?case by (rule assms(1))
next
  case (Suc d)
  let ?w = "skip_whitespace s"
  consider (a) "length (source s) \<le> position ?w"
    | (b) "at_line_comment ?w"
    | (c) "at_block_comment ?w"
    | (d) "position ?w < length (source s)" "\<not> at_line_comment ?w" "\<not> at_block_comment ?w"
    by fastforce
  then show ?case
  proof cases
    case a
    then show ?thesis by (rule assms(2))
  next
    case b
    then show ?thesis using Suc.IH by (rule assms(3))
  next
    case c
    show ?thesis
    proof (cases "skip_block_comment ?w")
      case (Pair r s')
      show ?thesis
      proof (cases r)
        case (Inl e)
        with c Pair show ?thesis by (auto intro: assms(4))
      next
        case (Inr u)
        with c Pair Suc.IH [of s'] show ?thesis by (auto intro: assms(5))
      qed
    qed
  next
    case d
    then show ?thesis by (rule assms(6))
  qed
qed

lemma skip_block_comment_result:
  assumes "skip_block_comment s = (r, s')"
  shows "source s' = source s" and "position s + 2 \<le> position s'"
  using skip_block_comment_source [of s] skip_block_comment_position [of s] assms by simp_all

lemma next_token_source [simp]: "source (snd (next_token d s)) = source s"
proof (induction d s rule: next_token_induct)
  case (exhausted s)
  then show ?case by (simp add: next_token_exhausted)
next
  case (eof d s)
  then show ?case by (simp add: next_token_eof)
next
  case (line_comment d s)
  then show ?case by (simp add: next_token_line_comment)
next
  case (block_error d s e s')
  then show ?case by (simp add: next_token_block_comment skip_block_comment_result(1))
next
  case (block_comment d s s')
  then show ?case by (simp add: next_token_block_comment skip_block_comment_result(1))
next
  case (token d s)
  then show ?case by (simp add: next_token_scan_token)
qed

lemma next_token_position: "position s \<le> position (snd (next_token d s))"
proof (induction d s rule: next_token_induct)
  case (exhausted s)
  then show ?case by (simp add: next_token_exhausted)
next
  case (eof d s)
  then show ?case by (simp add: next_token_eof skip_whitespace_position)
next
  case (line_comment d s)
  then show ?case
    using skip_whitespace_position [of s] skip_line_comment_position [of "skip_whitespace s"]
    by (simp add: next_token_line_comment)
next
  case (block_error d s e s')
  then show ?case
    using skip_whitespace_position [of s]
      skip_block_comment_result(2) [of "skip_whitespace s" "Inl e" s']
    by (simp add: next_token_block_comment)
next
  case (block_comment d s s')
  then show ?case
    using skip_whitespace_position [of s]
      skip_block_comment_result(2) [of "skip_whitespace s" "Inr ()" s']
    by (simp add: next_token_block_comment)
next
  case (token d s)
  then show ?case
    using skip_whitespace_position [of s] scan_token_advances [of "skip_whitespace s"]
    by (simp add: next_token_scan_token)
qed

text \<open>The token of \<open>scan_token\<close> is never the end-of-input token.\<close>

lemma KEYWORDS_not_EOF: "map_of KEYWORDS x = Some kw \<Longrightarrow> kw \<noteq> EOF"
  by (auto simp: KEYWORDS_def split: if_splits)

lemma OPERATORS_not_EOF: "map_of OPERATORS x = Some kw \<Longrightarrow> kw \<noteq> EOF"
  by (auto simp: OPERATORS_def split: if_splits)

lemma single_character_not_EOF:
  "find (\<lambda>token_type. TokenType_value token_type = [c]) TokenType_members = Some t \<Longrightarrow> t \<noteq> EOF"
  by (auto simp: find_Some_iff)

lemma scan_number_not_EOF: "scan_number s = (Inr tok, s') \<Longrightarrow> tok_type tok \<noteq> EOF"
  by (auto simp: scan_number_def Let_def split: prod.splits if_splits)

lemma scan_identifier_not_EOF: "scan_identifier s = (Inr tok, s') \<Longrightarrow> tok_type tok \<noteq> EOF"
  by (auto simp: scan_identifier_def Let_def split: prod.splits option.splits if_splits
      dest: KEYWORDS_not_EOF)

lemma scan_token_not_EOF: "scan_token s = (Inr tok, s') \<Longrightarrow> tok_type tok \<noteq> EOF"
  by (auto simp: scan_token_def Let_def split: if_splits option.splits
      dest: scan_number_not_EOF scan_identifier_not_EOF OPERATORS_not_EOF single_character_not_EOF)

text \<open>A call that returns a token other than end-of-input has moved the cursor.\<close>

lemma next_token_advances:
  "next_token d s = (Inr tok, s') \<Longrightarrow> tok_type tok \<noteq> EOF \<Longrightarrow>
   position s < position s' \<and> position s < length (source s)"
proof (induction d s rule: next_token_induct)
  case (exhausted s)
  then show ?case by (simp add: next_token_exhausted)
next
  case (eof d s)
  then show ?case by (auto simp: next_token_eof)
next
  case (line_comment d s)
  then show ?case
    using skip_whitespace_position [of s] skip_line_comment_position [of "skip_whitespace s"]
    by (simp add: next_token_line_comment at_line_comment_def)
next
  case (block_error d s e t)
  then show ?case by (simp add: next_token_block_comment)
next
  case (block_comment d s t)
  then show ?case
    using skip_whitespace_position [of s]
      skip_block_comment_result(2) [of "skip_whitespace s" "Inr ()" t]
    by (simp add: next_token_block_comment at_block_comment_def)
next
  case (token d s)
  then show ?case
    using skip_whitespace_position [of s] scan_token_advances [of "skip_whitespace s"]
    by (auto simp: next_token_scan_token)
qed

text \<open>
  \<open>analyze d s\<close>: the driver loop, run where the stack has room for \<open>d\<close> activations of
  \<open>next_token\<close> at each of its calls. It appends each token to the scanner's list and
  stops at the end-of-input token, returning the list, or stops at the first exception.
  The calls of \<^verbatim>\<open>print\<close> and \<^verbatim>\<open>print_table\<close> only write to the console and are left out.
\<close>

function analyze ::
  "nat \<Rightarrow> LexicalAnalyzer \<Rightarrow> (PyException + Token list) \<times> LexicalAnalyzer" where
  "analyze d s =
     (case next_token d s of
        (Inl e, s') \<Rightarrow> (Inl e, s')
      | (Inr token, s') \<Rightarrow>
          if tok_type token = EOF
          then (Inr (tokens s' @ [token]), s'\<lparr>tokens := tokens s' @ [token]\<rparr>)
          else analyze d (s'\<lparr>tokens := tokens s' @ [token]\<rparr>))"
  by pat_completeness auto
termination
proof (relation "measure (\<lambda>(d, s). length (source s) - position s)")
  show "wf (measure (\<lambda>(d, s). length (source s) - position s))" by simp
next
  fix d and s :: LexicalAnalyzer and x s' token
  assume nt: "(x, s') = next_token d s" and x: "x = Inr token" and ne: "tok_type token \<noteq> EOF"
  from nt x have eq: "next_token d s = (Inr token, s')" by simp
  from next_token_advances [OF eq ne]
  have "position s < position s'" "position s < length (source s)" by simp_all
  moreover have "source s' = source s"
    using next_token_source [of d s] eq by simp
  ultimately show "((d, s'\<lparr>tokens := tokens s' @ [token]\<rparr>), (d, s))
      \<in> measure (\<lambda>(d, s). length (source s) - position s)"
    by simp
qed

declare analyze.simps [simp del]

section \<open>More room on the stack\<close>

text \<open>
  A call that does not raise \<open>RecursionError\<close> does the same with any more room on the
  stack.
\<close>

lemma next_token_Suc:
  "fst (next_token d s) \<noteq> Inl RecursionError \<Longrightarrow> next_token (Suc d) s = next_token d s"
proof (induction d s rule: next_token_induct)
  case (exhausted s)
  then show ?case by (simp add: next_token_exhausted)
next
  case (eof d s)
  then show ?case by (simp add: next_token_eof)
next
  case (line_comment d s)
  then show ?case by (simp add: next_token_line_comment)
next
  case (block_error d s e t)
  then show ?case by (simp add: next_token_block_comment)
next
  case (block_comment d s t)
  then show ?case by (simp add: next_token_block_comment)
next
  case (token d s)
  then show ?case by (simp add: next_token_scan_token)
qed

lemma next_token_more:
  "fst (next_token d s) \<noteq> Inl RecursionError \<Longrightarrow> next_token (d + k) s = next_token d s"
proof (induction k)
  case 0
  show ?case by simp
next
  case (Suc k)
  then have "fst (next_token (d + k) s) \<noteq> Inl RecursionError" by simp
  from next_token_Suc [OF this] Suc show ?case by simp
qed

lemma analyze_more:
  "fst (analyze d s) \<noteq> Inl RecursionError \<Longrightarrow> analyze (d + k) s = analyze d s"
proof (induction d s rule: analyze.induct)
  case (1 d s)
  obtain r t where nt: "next_token d s = (r, t)" by (cases "next_token d s")
  have r: "r \<noteq> Inl RecursionError"
  proof
    assume "r = Inl RecursionError"
    with nt have "fst (analyze d s) = Inl RecursionError" by (simp add: analyze.simps [of d s])
    with "1.prems" show False by simp
  qed
  with nt have more: "next_token (d + k) s = (r, t)"
    using next_token_more [of d s k] by simp
  show ?case
  proof (cases r)
    case (Inl e)
    with nt more show ?thesis by (simp add: analyze.simps [of d s] analyze.simps [of "d + k" s])
  next
    case (Inr token)
    show ?thesis
    proof (cases "tok_type token = EOF")
      case True
      with nt more Inr show ?thesis
        by (simp add: analyze.simps [of d s] analyze.simps [of "d + k" s])
    next
      case False
      let ?t = "t\<lparr>tokens := tokens t @ [token]\<rparr>"
      from nt Inr False have eq: "analyze d s = analyze d ?t"
        by (simp add: analyze.simps [of d s])
      with "1.prems" have "fst (analyze d ?t) \<noteq> Inl RecursionError" by simp
      from "1.IH" [OF nt [symmetric] Inr False this] eq nt more Inr False show ?thesis
        by (simp add: analyze.simps [of "d + k" s])
    qed
  qed
qed
section \<open>Scans of concrete texts\<close>

text \<open>The sample program that \<^verbatim>\<open>main()\<close> of \<^verbatim>\<open>lexical_analyzer.py\<close> scans.\<close>

definition sample_program :: string where
  "sample_program = concat (map (\<lambda>l. l @ [CHR 0x0A])
     ['''',
      ''    int main() {'',
      ''        float x = .14;'',
      ''        // This is a comment'',
      ''        if (x <= 5.0) {'',
      ''            /* Multi-line'',
      ''               comment */'',
      ''            return 0;'',
      ''        }'',
      ''        return 1;'',
      ''    }'']) @ ''    ''"

text \<open>
  The 1-based line and column of the character at index \<open>i\<close> of a text, as the
  specification defines a token's position: the line is one more than the number of
  newlines before the character, the column one more than the number of characters
  between the last of these newlines and the character.
\<close>

definition char_line :: "string \<Rightarrow> nat \<Rightarrow> int" where
  "char_line src i = 1 + int (length (filter (\<lambda>c. c = CHR 0x0A) (take i src)))"

definition char_column :: "string \<Rightarrow> nat \<Rightarrow> int" where
  "char_column src i = 1 + int (length (takeWhile (\<lambda>c. c \<noteq> CHR 0x0A) (rev (take i src))))"

text \<open>
  Claim C1 says that a numeric literal with a leading \<open>.\<close> and no leading digit is
  accepted. The scanner rejects it, whatever room the stack has: on the text \<^verbatim>\<open>.14\<close> the
  first call of \<open>next_token\<close> raises the unexpected-character error at line 1, column 1,
  and the scan of the source's own sample program stops with that error at its \<^verbatim>\<open>.14\<close>,
  line 3, column 19.
\<close>

theorem leading_dot_literal_rejected:
  "fst (next_token (Suc d) (LexicalAnalyzer_init ''.14'')) =
     Inl (Lexical (LexicalError ''Unexpected character: .'' 1 1)) \<and>
   fst (analyze (Suc d) (LexicalAnalyzer_init ''.14'')) =
     Inl (Lexical (LexicalError ''Unexpected character: .'' 1 1)) \<and>
   fst (analyze (Suc d) (LexicalAnalyzer_init sample_program)) =
     Inl (Lexical (LexicalError ''Unexpected character: .'' 3 19))"
proof -
  have a: "fst (next_token (Suc 0) (LexicalAnalyzer_init ''.14'')) =
      Inl (Lexical (LexicalError ''Unexpected character: .'' 1 1))"
    by code_simp
  have b: "fst (analyze (Suc 0) (LexicalAnalyzer_init ''.14'')) =
      Inl (Lexical (LexicalError ''Unexpected character: .'' 1 1))"
    by code_simp
  have c: "fst (analyze (Suc 0) (LexicalAnalyzer_init sample_program)) =
      Inl (Lexical (LexicalError ''Unexpected character: .'' 3 19))"
    by code_simp
  show ?thesis
    using a b c
      next_token_more [of "Suc 0" "LexicalAnalyzer_init ''.14''" d]
      analyze_more [of "Suc 0" "LexicalAnalyzer_init ''.14''" d]
      analyze_more [of "Suc 0" "LexicalAnalyzer_init sample_program" d]
    by simp
qed

text \<open>
  Claim C2 says that the token after a block comment that spans lines carries the line
  and column of its first character. \<open>skip_block_comment\<close> counts no column for the
  opener \<^verbatim>\<open>/*\<close> and the closer \<^verbatim>\<open>*/\<close>: in the two-line text below the identifier \<open>x\<close> is
  the character at index 5, on line 2 at column 3, and its token reports column 1
  (with room on the stack for the two activations of \<open>next_token\<close> that the comment takes,
  or more).
\<close>

theorem block_comment_column_lost:
  "fst (analyze (Suc (Suc d)) (LexicalAnalyzer_init ''/*\<newline>*/x'')) =
     Inr [Token IDENTIFIER ''x'' 2 1, Token EOF [] 2 2] \<and>
   ''/*\<newline>*/x'' ! 5 = CHR ''x'' \<and>
   char_line ''/*\<newline>*/x'' 5 = 2 \<and> char_column ''/*\<newline>*/x'' 5 = 3"
proof -
  have a: "fst (analyze (Suc (Suc 0)) (LexicalAnalyzer_init ''/*\<newline>*/x'')) =
      Inr [Token IDENTIFIER ''x'' 2 1, Token EOF [] 2 2]"
    by code_simp
  have b: "''/*\<newline>*/x'' ! 5 = CHR ''x'' \<and>
      char_line ''/*\<newline>*/x'' 5 = 2 \<and> char_column ''/*\<newline>*/x'' 5 = 3"
    by code_simp
  show ?thesis
    using a b analyze_more [of "Suc (Suc 0)" "LexicalAnalyzer_init ''/*\<newline>*/x''" d]
    by simp
qed

text \<open>
  Claim C6: on the text \<^verbatim>\<open>@\<close>, \<open>next_token\<close> raises the unexpected-character error with
  line 1 and column 1, and the scan leaves the list of tokens empty, whatever room the
  stack has.
\<close>

theorem unexpected_character_at:
  "next_token (Suc d) (LexicalAnalyzer_init ''@'') =
     (Inl (Lexical (LexicalError ''Unexpected character: @'' 1 1)),
      (LexicalAnalyzer_init ''@'')\<lparr>position := 1, column := 2\<rparr>) \<and>
   fst (analyze (Suc d) (LexicalAnalyzer_init ''@'')) =
     Inl (Lexical (LexicalError ''Unexpected character: @'' 1 1)) \<and>
   tokens (snd (analyze (Suc d) (LexicalAnalyzer_init ''@''))) = []"
proof -
  have a: "next_token (Suc 0) (LexicalAnalyzer_init ''@'') =
     (Inl (Lexical (LexicalError ''Unexpected character: @'' 1 1)),
      (LexicalAnalyzer_init ''@'')\<lparr>position := 1, column := 2\<rparr>)"
    by code_simp
  have b: "fst (analyze (Suc 0) (LexicalAnalyzer_init ''@'')) =
      Inl (Lexical (LexicalError ''Unexpected character: @'' 1 1))"
    by code_simp
  have c: "tokens (snd (analyze (Suc 0) (LexicalAnalyzer_init ''@''))) = []"
    by code_simp
  show ?thesis
    using a b c
      next_token_more [of "Suc 0" "LexicalAnalyzer_init ''@''" d]
      analyze_more [of "Suc 0" "LexicalAnalyzer_init ''@''" d]
    by simp
qed

text \<open>
  Claim C7: on the text \<^verbatim>\<open>x <= y >= z == w != v && k || m\<close> the token kinds are
  IDENTIFIER, LE, IDENTIFIER, GE, IDENTIFIER, EQ, IDENTIFIER, NE, IDENTIFIER, AND,
  IDENTIFIER, OR, IDENTIFIER, EOF: each two-character operator is one token, with the
  column of its first character, whatever room the stack has.
\<close>

theorem two_character_operators:
  "fst (analyze (Suc d) (LexicalAnalyzer_init ''x <= y >= z == w != v && k || m'')) =
     Inr [Token IDENTIFIER ''x'' 1 1, Token LE ''<='' 1 3,
          Token IDENTIFIER ''y'' 1 6, Token GE ''>='' 1 8,
          Token IDENTIFIER ''z'' 1 11, Token EQ ''=='' 1 13,
          Token IDENTIFIER ''w'' 1 16, Token NE ''!='' 1 18,
          Token IDENTIFIER ''v'' 1 21, Token AND ''&&'' 1 23,
          Token IDENTIFIER ''k'' 1 26, Token OR ''||'' 1 28,
          Token IDENTIFIER ''m'' 1 31, Token EOF [] 1 32]"
proof -
  have a: "fst (analyze (Suc 0) (LexicalAnalyzer_init ''x <= y >= z == w != v && k || m'')) =
     Inr [Token IDENTIFIER ''x'' 1 1, Token LE ''<='' 1 3,
          Token IDENTIFIER ''y'' 1 6, Token GE ''>='' 1 8,
          Token IDENTIFIER ''z'' 1 11, Token EQ ''=='' 1 13,
          Token IDENTIFIER ''w'' 1 16, Token NE ''!='' 1 18,
          Token IDENTIFIER ''v'' 1 21, Token AND ''&&'' 1 23,
          Token IDENTIFIER ''k'' 1 26, Token OR ''||'' 1 28,
          Token IDENTIFIER ''m'' 1 31, Token EOF [] 1 32]"
    by code_simp
  show ?thesis
    using a
      analyze_more [of "Suc 0" "LexicalAnalyzer_init ''x <= y >= z == w != v && k || m''" d]
    by simp
qed
section \<open>What the scanning loops leave unchanged\<close>

lemma advance_char_frame [simp]:
  "tokens (advance_char s) = tokens s" "symbol_table (advance_char s) = symbol_table s"
  by (simp_all add: advance_char_def)

lemma skip_whitespace_frame [simp]:
  "tokens (skip_whitespace s) = tokens s \<and> symbol_table (skip_whitespace s) = symbol_table s"
proof (induction s rule: skip_whitespace.induct)
  case (1 s)
  then show ?case by (simp add: skip_whitespace.simps [of s])
qed

lemma skip_line_comment_loop_frame [simp]:
  "tokens (skip_line_comment_loop s) = tokens s \<and>
   symbol_table (skip_line_comment_loop s) = symbol_table s \<and>
   line (skip_line_comment_loop s) = line s \<and> column (skip_line_comment_loop s) = column s"
proof (induction s rule: skip_line_comment_loop.induct)
  case (1 s)
  then show ?case by (simp add: skip_line_comment_loop.simps [of s])
qed

lemma skip_line_comment_frame [simp]:
  "tokens (skip_line_comment s) = tokens s \<and>
   symbol_table (skip_line_comment s) = symbol_table s \<and>
   line (skip_line_comment s) = line s \<and> column (skip_line_comment s) = column s"
  by (simp add: skip_line_comment_def)

lemma skip_block_comment_loop_frame [simp]:
  "tokens (snd (skip_block_comment_loop s)) = tokens s \<and>
   symbol_table (snd (skip_block_comment_loop s)) = symbol_table s"
proof (induction s rule: skip_block_comment_loop.induct)
  case (1 s)
  then show ?case by (simp add: skip_block_comment_loop.simps [of s])
qed

lemma skip_block_comment_frame:
  assumes "skip_block_comment s = (r, s')"
  shows "tokens s' = tokens s" and "symbol_table s' = symbol_table s"
proof -
  have "s' = snd (skip_block_comment_loop (s\<lparr>position := position s + 2\<rparr>))"
    using assms by (simp add: skip_block_comment_def)
  then show "tokens s' = tokens s" and "symbol_table s' = symbol_table s"
    by simp_all
qed

lemma scan_number_loop_frame [simp]:
  "tokens (fst (scan_number_loop s acc fl)) = tokens s \<and>
   symbol_table (fst (scan_number_loop s acc fl)) = symbol_table s \<and>
   line (fst (scan_number_loop s acc fl)) = line s"
proof (induction s acc fl rule: scan_number_loop.induct)
  case (1 s acc fl)
  then show ?case by (simp add: scan_number_loop.simps [of s acc fl])
qed

lemma scan_identifier_loop_frame [simp]:
  "tokens (fst (scan_identifier_loop s acc)) = tokens s \<and>
   symbol_table (fst (scan_identifier_loop s acc)) = symbol_table s \<and>
   line (fst (scan_identifier_loop s acc)) = line s"
proof (induction s acc rule: scan_identifier_loop.induct)
  case (1 s acc)
  then show ?case by (simp add: scan_identifier_loop.simps [of s acc])
qed

lemma scan_number_frame [simp]:
  "tokens (snd (scan_number s)) = tokens s \<and> symbol_table (snd (scan_number s)) = symbol_table s"
  by (simp add: scan_number_def Let_def split_def)

lemma scan_identifier_tokens [simp]: "tokens (snd (scan_identifier s)) = tokens s"
  by (simp add: scan_identifier_def Let_def split_def split: option.splits)

lemma scan_token_tokens [simp]: "tokens (snd (scan_token s)) = tokens s"
  by (simp add: scan_token_def Let_def split: option.splits)

lemma next_token_tokens [simp]: "tokens (snd (next_token d s)) = tokens s"
proof (induction d s rule: next_token_induct)
  case (exhausted s)
  then show ?case by (simp add: next_token_exhausted)
next
  case (eof d s)
  then show ?case by (simp add: next_token_eof)
next
  case (line_comment d s)
  then show ?case by (simp add: next_token_line_comment)
next
  case (block_error d s e s')
  then show ?case by (simp add: next_token_block_comment skip_block_comment_frame(1))
next
  case (block_comment d s s')
  then show ?case by (simp add: next_token_block_comment skip_block_comment_frame(1))
next
  case (token d s)
  then show ?case by (simp add: next_token_scan_token)
qed

section \<open>The end-of-input token\<close>

lemma skip_whitespace_at_end: "length (source s) \<le> position s \<Longrightarrow> skip_whitespace s = s"
  by (subst skip_whitespace.simps) simp

lemma next_token_at_end:
  "length (source s) \<le> position s \<Longrightarrow>
   next_token (Suc d) s = (Inr (Token EOF [] (line s) (column s)), s)"
  using next_token_eof [of s d] by (simp add: skip_whitespace_at_end)

lemma next_token_EOF_state:
  "next_token d s = (Inr tok, s') \<Longrightarrow> tok_type tok = EOF \<Longrightarrow>
   length (source s') \<le> position s' \<and> tok = Token EOF [] (line s') (column s')"
proof (induction d s rule: next_token_induct)
  case (exhausted s)
  then show ?case by (simp add: next_token_exhausted)
next
  case (eof d s)
  then show ?case by (auto simp: next_token_eof)
next
  case (line_comment d s)
  then show ?case by (simp add: next_token_line_comment)
next
  case (block_error d s e t)
  then show ?case by (simp add: next_token_block_comment)
next
  case (block_comment d s t)
  then show ?case by (simp add: next_token_block_comment)
next
  case (token d s)
  then show ?case using scan_token_not_EOF [of "skip_whitespace s" tok s']
    by (simp add: next_token_scan_token)
qed

text \<open>
  Claim C8: once \<open>next_token\<close> has returned the end-of-input token, every later call
  returns that same token (so neither raises nor reports another line or column) and
  leaves the whole scanner state, cursor position, line and column included, as it is.
  The state after \<open>n\<close> further calls is \<open>((\<lambda>t. snd (next_token (Suc k) t)) ^^ n) s'\<close>; the
  later calls may be made with any room on the stack that lets a call start at all
  (\<open>Suc k\<close>), whatever room \<open>d\<close> the first one had.
\<close>

theorem next_token_after_EOF:
  assumes "next_token d s = (Inr tok, s')" and "tok_type tok = EOF"
  shows "((\<lambda>t. snd (next_token (Suc k) t)) ^^ n) s' = s' \<and>
         next_token (Suc k) (((\<lambda>t. snd (next_token (Suc k) t)) ^^ n) s') = (Inr tok, s')"
proof -
  from next_token_EOF_state [OF assms]
  have "length (source s') \<le> position s'" and "tok = Token EOF [] (line s') (column s')"
    by simp_all
  then have again: "next_token (Suc k) s' = (Inr tok, s')"
    by (simp add: next_token_at_end)
  have "((\<lambda>t. snd (next_token (Suc k) t)) ^^ n) s' = s'"
    by (induction n) (simp_all add: again)
  with again show ?thesis by simp
qed

theorem next_token_after_EOF_witness:
  "next_token (Suc 0) (LexicalAnalyzer_init '' '') =
     (Inr (Token EOF [] 1 2), (LexicalAnalyzer_init '' '')\<lparr>position := 1, column := 2\<rparr>) \<and>
   tok_type (Token EOF [] 1 2) = EOF \<and>
   next_token (Suc 0) (((\<lambda>t. snd (next_token (Suc 0) t)) ^^ 3)
       ((LexicalAnalyzer_init '' '')\<lparr>position := 1, column := 2\<rparr>)) =
     (Inr (Token EOF [] 1 2), (LexicalAnalyzer_init '' '')\<lparr>position := 1, column := 2\<rparr>)"
proof -
  have h: "next_token (Suc 0) (LexicalAnalyzer_init '' '') =
     (Inr (Token EOF [] 1 2), (LexicalAnalyzer_init '' '')\<lparr>position := 1, column := 2\<rparr>)"
    by code_simp
  have e: "tok_type (Token EOF [] 1 2) = EOF" by simp
  from next_token_after_EOF [OF h e, where k = 0 and n = 3] h e show ?thesis by blast
qed

section \<open>The sequence returned by a full scan\<close>

lemma analyze_tokens:
  "analyze d s = (Inr toks, s') \<Longrightarrow>
   \<exists>pre tok. toks = tokens s @ pre @ [tok] \<and> tok_type tok = EOF \<and>
     (\<forall>t\<in>set pre. tok_type t \<noteq> EOF) \<and> tokens s' = toks"
proof (induction d s rule: analyze.induct)
  case (1 d s)
  obtain r t where nt: "next_token d s = (r, t)" by (cases "next_token d s")
  have tt: "tokens t = tokens s" using next_token_tokens [of d s] nt by simp
  show ?case
  proof (cases r)
    case (Inl e)
    with nt "1.prems" show ?thesis by (simp add: analyze.simps [of d s])
  next
    case (Inr token)
    show ?thesis
    proof (cases "tok_type token = EOF")
      case True
      with nt Inr "1.prems" have "toks = tokens t @ [token]" "tokens s' = toks"
        by (auto simp: analyze.simps [of d s])
      with True tt show ?thesis by auto
    next
      case False
      with nt Inr "1.prems"
      have rec: "analyze d (t\<lparr>tokens := tokens t @ [token]\<rparr>) = (Inr toks, s')"
        by (simp add: analyze.simps [of d s])
      from "1.IH" [OF nt [symmetric] Inr False rec]
      obtain pre tok where "toks = (tokens t @ [token]) @ pre @ [tok]" "tok_type tok = EOF"
        "\<forall>t\<in>set pre. tok_type t \<noteq> EOF" "tokens s' = toks"
        by auto
      with False tt show ?thesis
        by (intro exI [of _ "token # pre"] exI [of _ tok]) simp
    qed
  qed
qed

text \<open>
  Claim C9: when a full scan of a source text returns (raises no exception), with any
  room on the stack, the returned token sequence, which is also the scanner's list of
  tokens, is not empty, its last element is the end-of-input token, and the
  end-of-input token occurs in it once.
\<close>

theorem analyze_ends_with_EOF:
  assumes "analyze d (LexicalAnalyzer_init src) = (Inr toks, s')"
  shows "toks \<noteq> [] \<and> tok_type (last toks) = EOF \<and>
         length (filter (\<lambda>t. tok_type t = EOF) toks) = 1 \<and> tokens s' = toks"
proof -
  have "tokens (LexicalAnalyzer_init src) = []"
    by (simp add: LexicalAnalyzer_init_def initialize_built_in_functions_def Let_def)
  with analyze_tokens [OF assms]
  obtain pre tok where "toks = pre @ [tok]" "tok_type tok = EOF"
    "\<forall>t\<in>set pre. tok_type t \<noteq> EOF" "tokens s' = toks"
    by auto
  then show ?thesis by (simp add: filter_empty_conv [THEN iffD2])
qed

theorem analyze_ends_with_EOF_witness:
  "analyze (Suc 0) (LexicalAnalyzer_init ''x'') =
     (Inr [Token IDENTIFIER ''x'' 1 1, Token EOF [] 1 2],
      snd (analyze (Suc 0) (LexicalAnalyzer_init ''x''))) \<and>
   tok_type (last [Token IDENTIFIER ''x'' 1 1, Token EOF [] 1 2]) = EOF \<and>
   length (filter (\<lambda>t. tok_type t = EOF) [Token IDENTIFIER ''x'' 1 1, Token EOF [] 1 2]) = 1 \<and>
   tokens (snd (analyze (Suc 0) (LexicalAnalyzer_init ''x''))) =
     [Token IDENTIFIER ''x'' 1 1, Token EOF [] 1 2]"
proof -
  have "fst (analyze (Suc 0) (LexicalAnalyzer_init ''x'')) =
      Inr [Token IDENTIFIER ''x'' 1 1, Token EOF [] 1 2]"
    by code_simp
  then have h: "analyze (Suc 0) (LexicalAnalyzer_init ''x'') =
     (Inr [Token IDENTIFIER ''x'' 1 1, Token EOF [] 1 2],
      snd (analyze (Suc 0) (LexicalAnalyzer_init ''x'')))"
    by (simp add: prod_eq_iff)
  from analyze_ends_with_EOF [OF h] h show ?thesis by blast
qed
section \<open>Numeric literals\<close>

text \<open>
  The text of a numeric literal as the specification describes it, for the characters
  \<open>r\<close> from the cursor on: the longest run of digits, and, when a \<open>.\<close> follows that run,
  the \<open>.\<close> and the longest run of digits after it.
\<close>

definition number_text :: "string \<Rightarrow> string" where
  "number_text r =
     (case dropWhile isdigit r of
        [] \<Rightarrow> takeWhile isdigit r
      | c # r' \<Rightarrow>
          if c = CHR ''.'' then takeWhile isdigit r @ ''.'' @ takeWhile isdigit r'
          else takeWhile isdigit r)"

lemma drop_eq_Cons:
  assumes "drop n xs = c # r"
  shows "n < length xs" and "xs ! n = c" and "drop (Suc n) xs = r"
proof -
  show n: "n < length xs" using assms by (cases "n < length xs") simp_all
  from Cons_nth_drop_Suc [OF n] assms show "xs ! n = c" and "drop (Suc n) xs = r" by simp_all
qed

lemma isdigit_not_dot: "isdigit c \<Longrightarrow> c \<noteq> CHR ''.''" "isdigit c \<Longrightarrow> CHR ''.'' \<noteq> c"
  by (auto simp: isdigit_def)

lemma endswith_dot_mem: "endswith xs ''.'' \<Longrightarrow> CHR ''.'' \<in> set xs"
proof -
  assume "endswith xs ''.''"
  then have "drop (length xs - 1) xs = [CHR ''.'']" by (simp add: endswith_def)
  then have "CHR ''.'' \<in> set (drop (length xs - 1) xs)" by simp
  then show ?thesis by (rule in_set_dropD)
qed

lemma number_text_Nil [simp]: "number_text [] = []"
  by (simp add: number_text_def)

lemma number_text_digit: "isdigit c \<Longrightarrow> number_text (c # r) = c # number_text r"
  by (cases "dropWhile isdigit r") (simp_all add: number_text_def del: dropWhile_eq_Nil_conv)

lemma number_text_dot: "number_text (CHR ''.'' # r) = CHR ''.'' # takeWhile isdigit r"
  by (simp add: number_text_def isdigit_def)

lemma number_text_other: "\<not> isdigit c \<Longrightarrow> c \<noteq> CHR ''.'' \<Longrightarrow> number_text (c # r) = []"
  by (simp add: number_text_def)

lemma scan_number_loop_stop:
  "length (source s) \<le> position s \<Longrightarrow> scan_number_loop s acc fl = (s, acc, fl)"
  by (subst scan_number_loop.simps) simp

text \<open>After the \<open>.\<close> the loop takes the digits that follow.\<close>

lemma scan_number_loop_digits:
  "drop (position s) (source s) = r \<Longrightarrow>
   scan_number_loop s acc True =
     (s\<lparr>position := position s + length (takeWhile isdigit r),
        column := column s + int (length (takeWhile isdigit r))\<rparr>,
      acc @ takeWhile isdigit r, True)"
proof (induction r arbitrary: s acc)
  case Nil
  then show ?case by (simp add: scan_number_loop_stop)
next
  case (Cons c r)
  note d = drop_eq_Cons [OF Cons.prems]
  let ?s1 = "s\<lparr>position := position s + 1, column := column s + 1\<rparr>"
  show ?case
  proof (cases "isdigit c")
    case True
    have "drop (position ?s1) (source ?s1) = r" using d by simp
    from Cons.IH [OF this, of "acc @ [c]"] True d show ?thesis
      by (subst scan_number_loop.simps) simp
  next
    case False
    with d show ?thesis by (subst scan_number_loop.simps) simp
  qed
qed

text \<open>Before any \<open>.\<close> the loop takes the text of the literal.\<close>

lemma scan_number_loop_text:
  "drop (position s) (source s) = r \<Longrightarrow>
   scan_number_loop s acc False =
     (s\<lparr>position := position s + length (number_text r),
        column := column s + int (length (number_text r))\<rparr>,
      acc @ number_text r, CHR ''.'' \<in> set (number_text r))"
proof (induction r arbitrary: s acc)
  case Nil
  then show ?case by (simp add: scan_number_loop_stop)
next
  case (Cons c r)
  note d = drop_eq_Cons [OF Cons.prems]
  let ?s1 = "s\<lparr>position := position s + 1, column := column s + 1\<rparr>"
  have r: "drop (position ?s1) (source ?s1) = r" using d by simp
  consider (digit) "isdigit c" | (dot) "\<not> isdigit c" "c = CHR ''.''"
    | (other) "\<not> isdigit c" "c \<noteq> CHR ''.''"
    by blast
  then show ?case
  proof cases
    case digit
    from Cons.IH [OF r, of "acc @ [c]"] digit d show ?thesis
      by (subst scan_number_loop.simps) (simp add: number_text_digit isdigit_not_dot)
  next
    case dot
    from scan_number_loop_digits [OF r, of "acc @ [c]"] dot d show ?thesis
      by (subst scan_number_loop.simps) (simp add: number_text_dot)
  next
    case other
    with d show ?thesis
      by (subst scan_number_loop.simps) (simp add: number_text_other)
  qed
qed

lemma number_text_one_dot: "length (filter (\<lambda>c. c = CHR ''.'') (number_text r)) \<le> 1"
proof -
  have "filter (\<lambda>c. c = CHR ''.'') (takeWhile isdigit xs) = []" for xs
    by (auto simp: filter_empty_conv dest: set_takeWhileD isdigit_not_dot)
  then show ?thesis by (simp add: number_text_def split: list.splits)
qed

lemma skip_whitespace_stop:
  "position s < length (source s) \<Longrightarrow> \<not> isspace (source s ! position s) \<Longrightarrow>
   skip_whitespace s = s"
  by (subst skip_whitespace.simps) simp

lemma isdigit_at_cursor:
  assumes "position s < length (source s)" and "isdigit (source s ! position s)"
  shows "\<not> at_line_comment s" and "\<not> at_block_comment s"
    and "scan_token s = scan_number s"
  using assms by (auto simp: at_line_comment_def at_block_comment_def scan_token_def isdigit_def)

text \<open>
  What \<open>next_token\<close> does at a numeric literal: when, after the whitespace, the cursor is
  at a digit, the accumulated text is \<open>number_text\<close> of the characters from the cursor on.
  If that text ends with \<open>.\<close>, \<open>next_token\<close> raises the invalid-float-literal error,
  otherwise it returns a token with exactly that text, a floating literal when the text
  holds a \<open>.\<close> and an integer literal when it holds none. Line and column of the error and
  of the token are the scanner's counters \<open>line\<close> and \<open>column\<close> at the first digit.
\<close>

lemma next_token_number:
  assumes "position (skip_whitespace s) < length (source s)"
    and "isdigit (source s ! position (skip_whitespace s))"
  shows "let w = skip_whitespace s; txt = number_text (drop (position w) (source s)) in
           fst (next_token (Suc d) s) =
             (if endswith txt ''.''
              then Inl (Lexical (LexicalError ''Invalid float literal'' (line w) (column w)))
              else if CHR ''.'' \<in> set txt
              then Inr (Token FLOAT_LIT txt (line w) (column w))
              else Inr (Token INT_LIT txt (line w) (column w))) \<and>
           length (filter (\<lambda>c. c = CHR ''.'') txt) \<le> 1"
proof -
  let ?w = "skip_whitespace s"
  let ?txt = "number_text (drop (position ?w) (source s))"
  have a: "position ?w < length (source ?w)" "isdigit (source ?w ! position ?w)"
    using assms by simp_all
  have "next_token (Suc d) s = raise_lexical (scan_token ?w)"
    using isdigit_at_cursor(1,2) [OF a] assms(1) by (rule_tac next_token_scan_token) simp_all
  then have nt: "next_token (Suc d) s = raise_lexical (scan_number ?w)"
    using isdigit_at_cursor(3) [OF a] by simp
  have loop: "scan_number_loop ?w [] False =
     (?w\<lparr>position := position ?w + length ?txt, column := column ?w + int (length ?txt)\<rparr>,
      ?txt, CHR ''.'' \<in> set ?txt)"
    using scan_number_loop_text [of ?w "drop (position ?w) (source s)" "[]"] by simp
  show ?thesis
    using number_text_one_dot [of "drop (position ?w) (source s)"]
    by (auto simp: Let_def nt scan_number_def loop dest: endswith_dot_mem)
qed

text \<open>
  Claim C5 says that the invalid-float-literal error carries the column at which the
  literal starts. The error carries the scanner's column counter, which
  \<open>skip_block_comment\<close> leaves behind by two for the opener and two for the closer of
  every block comment on the line. In the text \<^verbatim>\<open>/**/1.\<close> the literal \<^verbatim>\<open>1.\<close> starts at
  index 4, line 1, column 5, and \<open>next_token\<close> raises the error with column 1; in
  \<^verbatim>\<open>x = /* half */ 1.;\<close> the literal starts at index 15, column 16, and the scan raises the
  error with column 12. This holds with any room on the stack that lets \<open>next_token\<close>
  skip the comment (\<open>Suc (Suc d)\<close>).
\<close>

theorem invalid_float_literal_column:
  "fst (next_token (Suc (Suc d)) (LexicalAnalyzer_init ''/**/1.'')) =
     Inl (Lexical (LexicalError ''Invalid float literal'' 1 1)) \<and>
   ''/**/1.'' ! 4 = CHR ''1'' \<and> char_line ''/**/1.'' 4 = 1 \<and> char_column ''/**/1.'' 4 = 5 \<and>
   fst (analyze (Suc (Suc d)) (LexicalAnalyzer_init ''x = /* half */ 1.;'')) =
     Inl (Lexical (LexicalError ''Invalid float literal'' 1 12)) \<and>
   ''x = /* half */ 1.;'' ! 15 = CHR ''1'' \<and> char_line ''x = /* half */ 1.;'' 15 = 1 \<and>
   char_column ''x = /* half */ 1.;'' 15 = 16"
proof -
  have a: "fst (next_token (Suc (Suc 0)) (LexicalAnalyzer_init ''/**/1.'')) =
     Inl (Lexical (LexicalError ''Invalid float literal'' 1 1))"
    by code_simp
  have b: "fst (analyze (Suc (Suc 0)) (LexicalAnalyzer_init ''x = /* half */ 1.;'')) =
     Inl (Lexical (LexicalError ''Invalid float literal'' 1 12))"
    by code_simp
  have c: "''/**/1.'' ! 4 = CHR ''1''" "char_line ''/**/1.'' 4 = 1" "char_column ''/**/1.'' 4 = 5"
    "''x = /* half */ 1.;'' ! 15 = CHR ''1''" "char_line ''x = /* half */ 1.;'' 15 = 1"
    "char_column ''x = /* half */ 1.;'' 15 = 16"
    by code_simp+
  from a have "fst (next_token (Suc (Suc 0) + d) (LexicalAnalyzer_init ''/**/1.'')) =
     Inl (Lexical (LexicalError ''Invalid float literal'' 1 1))"
    using next_token_more [of "Suc (Suc 0)" "LexicalAnalyzer_init ''/**/1.''" d] by simp
  moreover from b
  have "fst (analyze (Suc (Suc 0) + d) (LexicalAnalyzer_init ''x = /* half */ 1.;'')) =
     Inl (Lexical (LexicalError ''Invalid float literal'' 1 12))"
    using analyze_more [of "Suc (Suc 0)" "LexicalAnalyzer_init ''x = /* half */ 1.;''" d] by simp
  ultimately show ?thesis using c by simp
qed
section \<open>Texts of whitespace and comments only\<close>

text \<open>
  \<open>has_close b\<close>: the text \<open>b\<close> contains the closer \<^verbatim>\<open>*/\<close>. \<open>insignificant r\<close>: the text \<open>r\<close>
  consists of whitespace and comments only, that is, it is empty, or a whitespace
  character, or a line comment (\<^verbatim>\<open>//\<close> and the characters up to the end of the line or
  of the text), or a block comment (\<^verbatim>\<open>/*\<close>, a body without \<^verbatim>\<open>*/\<close>, and \<^verbatim>\<open>*/\<close>), followed by
  such a text.
\<close>

fun has_close :: "string \<Rightarrow> bool" where
  "has_close (a # b # r) = ((a = CHR ''*'' \<and> b = CHR ''/'') \<or> has_close (b # r))"
| "has_close _ = False"

inductive insignificant :: "string \<Rightarrow> bool" where
  empty: "insignificant []"
| space: "isspace c \<Longrightarrow> insignificant r \<Longrightarrow> insignificant (c # r)"
| line_comment:
    "CHR 0x0A \<notin> set b \<Longrightarrow> r = [] \<or> hd r = CHR 0x0A \<Longrightarrow> insignificant r \<Longrightarrow>
     insignificant (''//'' @ b @ r)"
| block_comment:
    "\<not> has_close b \<Longrightarrow> insignificant r \<Longrightarrow> insignificant (''/*'' @ b @ ''*/'' @ r)"

lemma drop_eq_Cons2:
  assumes "drop n xs = a # b # r"
  shows "n + 1 < length xs" and "xs ! n = a" and "xs ! (n + 1) = b" and "drop (n + 2) xs = r"
proof -
  note d = drop_eq_Cons [OF assms]
  note e = drop_eq_Cons [OF d(3)]
  from d e show "n + 1 < length xs" and "xs ! n = a" and "xs ! (n + 1) = b"
    and "drop (n + 2) xs = r"
    by simp_all
qed

lemma next_token_skip_whitespace_cong:
  "skip_whitespace s = skip_whitespace t \<Longrightarrow> next_token (Suc d) s = next_token (Suc d) t"
  by (simp add: next_token.simps)

lemma next_token_space:
  assumes "position s < length (source s)" and "isspace (source s ! position s)"
  shows "next_token (Suc d) s = next_token (Suc d) (advance_char s)"
  using assms by (intro next_token_skip_whitespace_cong) (simp add: skip_whitespace.simps [of s])

lemma not_isspace_slash: "\<not> isspace (CHR ''/'')"
  by (simp add: isspace_def)

lemma skip_line_comment_loop_body:
  "drop (position s) (source s) = b @ r \<Longrightarrow> CHR 0x0A \<notin> set b \<Longrightarrow>
   r = [] \<or> hd r = CHR 0x0A \<Longrightarrow>
   skip_line_comment_loop s = s\<lparr>position := position s + length b\<rparr>"
proof (induction b arbitrary: s)
  case Nil
  show ?case
  proof (cases r)
    case Nil
    with Nil.prems show ?thesis by (simp add: skip_line_comment_loop.simps [of s])
  next
    case (Cons c r')
    with Nil.prems have "drop (position s) (source s) = CHR 0x0A # r'" by simp
    from drop_eq_Cons [OF this] show ?thesis
      by (simp add: skip_line_comment_loop.simps [of s])
  qed
next
  case (Cons c b)
  from Cons.prems have d: "drop (position s) (source s) = c # (b @ r)" by simp
  note e = drop_eq_Cons [OF d]
  let ?s1 = "s\<lparr>position := position s + 1\<rparr>"
  have "drop (position ?s1) (source ?s1) = b @ r" using e by simp
  from Cons.IH [OF this] Cons.prems
  have "skip_line_comment_loop ?s1 = ?s1\<lparr>position := position ?s1 + length b\<rparr>" by simp
  with e Cons.prems show ?case
    by (auto simp: skip_line_comment_loop.simps [of s])
qed

lemma has_close_Cons: "\<not> has_close (a # b) \<Longrightarrow> \<not> has_close b"
  by (cases b) simp_all

lemma skip_block_comment_loop_body:
  "drop (position s) (source s) = b @ ''*/'' @ r \<Longrightarrow> \<not> has_close b \<Longrightarrow>
   \<exists>s'. skip_block_comment_loop s = (Inr (), s') \<and> source s' = source s \<and>
        position s' = position s + length b + 2"
proof (induction b arbitrary: s)
  case Nil
  then have "drop (position s) (source s) = CHR ''*'' # CHR ''/'' # r" by simp
  from drop_eq_Cons2 [OF this] show ?case
    by (simp add: skip_block_comment_loop.simps [of s])
next
  case (Cons a b)
  obtain x rest where x: "b @ ''*/'' @ r = x # rest" by (cases "b @ ''*/'' @ r") simp_all
  with Cons.prems have d: "drop (position s) (source s) = a # x # rest" by simp
  note e = drop_eq_Cons2 [OF d]
  have no: "\<not> (a = CHR ''*'' \<and> x = CHR ''/'')"
    using Cons.prems(2) x by (cases b) auto
  have "drop (position (advance_char s)) (source (advance_char s)) = b @ ''*/'' @ r"
    using drop_eq_Cons(3) [OF d] x by simp
  from Cons.IH [OF this has_close_Cons [OF Cons.prems(2)]]
  obtain s' where "skip_block_comment_loop (advance_char s) = (Inr (), s')"
    "source s' = source s" "position s' = position s + 1 + length b + 2"
    by auto
  with e no show ?case
    by (simp add: skip_block_comment_loop.simps [of s])
qed

text \<open>
  With enough room on the stack, \<open>next_token\<close> skips a text of whitespace and comments
  and returns the end-of-input token.
\<close>

lemma insignificant_next_token:
  "insignificant r \<Longrightarrow> drop (position s) (source s) = r \<Longrightarrow>
   \<exists>d s'. next_token (Suc d) s = (Inr (Token EOF [] (line s') (column s')), s')"
proof (induction r arbitrary: s rule: insignificant.induct)
  case empty
  then have "length (source s) \<le> position s" by simp
  from next_token_at_end [OF this] show ?case by blast
next
  case (space c r)
  note d = drop_eq_Cons [OF space.prems]
  have "drop (position (advance_char s)) (source (advance_char s)) = r"
    using d by simp
  from space.IH [OF this] obtain k s'
    where "next_token (Suc k) (advance_char s) = (Inr (Token EOF [] (line s') (column s')), s')"
    by blast
  with next_token_space [of s k] d space.hyps(1) show ?case
    by auto
next
  case (line_comment b r)
  from line_comment.prems
  have d: "drop (position s) (source s) = CHR ''/'' # CHR ''/'' # (b @ r)" by simp
  note e = drop_eq_Cons2 [OF d]
  have w: "skip_whitespace s = s"
    using e by (intro skip_whitespace_stop) (simp_all add: not_isspace_slash)
  have "at_line_comment s"
    using e by (simp add: at_line_comment_def)
  then have nt: "next_token (Suc k) s = next_token k (skip_line_comment s)" for k
    using next_token_line_comment [of s k] w by simp
  let ?s2 = "s\<lparr>position := position s + 2\<rparr>"
  have "drop (position ?s2) (source ?s2) = b @ r" using e by simp
  from skip_line_comment_loop_body [OF this line_comment.hyps(1,2)]
  have slc: "skip_line_comment s = s\<lparr>position := position s + 2 + length b\<rparr>"
    by (simp add: skip_line_comment_def)
  have "drop (position s + 2 + length b) (source s) = drop (length b) (drop (position s + 2) (source s))"
    by (simp add: add.commute)
  also have "\<dots> = r" using e(4) by simp
  finally have "drop (position (skip_line_comment s)) (source (skip_line_comment s)) = r"
    by (simp add: slc)
  from line_comment.IH [OF this] obtain k s'
    where "next_token (Suc k) (skip_line_comment s) =
      (Inr (Token EOF [] (line s') (column s')), s')"
    by blast
  with nt [of "Suc k"] show ?case by auto
next
  case (block_comment b r)
  from block_comment.prems
  have d: "drop (position s) (source s) = CHR ''/'' # CHR ''*'' # (b @ ''*/'' @ r)" by simp
  note e = drop_eq_Cons2 [OF d]
  have w: "skip_whitespace s = s"
    using e by (intro skip_whitespace_stop) (simp_all add: not_isspace_slash)
  have abc: "at_block_comment s"
    using e by (simp add: at_block_comment_def)
  let ?s2 = "s\<lparr>position := position s + 2\<rparr>"
  have "drop (position ?s2) (source ?s2) = b @ ''*/'' @ r" using e by simp
  from skip_block_comment_loop_body [OF this block_comment.hyps(1)]
  obtain t where t: "skip_block_comment s = (Inr (), t)" "source t = source s"
    "position t = position s + 2 + length b + 2"
    by (auto simp: skip_block_comment_def)
  have nt: "next_token (Suc k) s = next_token k t" for k
    using next_token_block_comment [of s k] w abc t(1) by simp
  have "drop (position t) (source t) =
      drop (length b + 2) (drop (position s + 2) (source s))"
    by (simp add: t add.commute add.left_commute)
  also have "\<dots> = r" using e(4) by simp
  finally have "drop (position t) (source t) = r" .
  from block_comment.IH [OF this] obtain k s'
    where "next_token (Suc k) t = (Inr (Token EOF [] (line s') (column s')), s')"
    by blast
  with nt [of "Suc k"] show ?case by auto
qed

lemma insignificant_analyze:
  assumes "insignificant src"
  shows "\<exists>d l c. fst (analyze (Suc d) (LexicalAnalyzer_init src)) = Inr [Token EOF [] l c]"
proof -
  let ?s = "LexicalAnalyzer_init src"
  have init: "position ?s = 0" "source ?s = src" "tokens ?s = []"
    by (simp_all add: LexicalAnalyzer_init_def initialize_built_in_functions_def Let_def)
  then have "drop (position ?s) (source ?s) = src" by simp
  from insignificant_next_token [OF assms this]
  obtain d s' where nt: "next_token (Suc d) ?s = (Inr (Token EOF [] (line s') (column s')), s')"
    by blast
  have "tokens s' = []"
    using next_token_tokens [of "Suc d" ?s] nt init by simp
  with nt have "fst (analyze (Suc d) ?s) = Inr [Token EOF [] (line s') (column s')]"
    by (simp add: analyze.simps [of "Suc d" ?s])
  then show ?thesis by blast
qed

subsection \<open>One activation of \<open>next_token\<close> for every comment\<close>

text \<open>\<open>line_comments n\<close>: the text of \<open>n\<close> lines, each of them the empty line comment \<^verbatim>\<open>//\<close>.\<close>

definition line_comments :: "nat \<Rightarrow> string" where
  "line_comments n = concat (replicate n [CHR ''/'', CHR ''/'', CHR 0x0A])"

lemma line_comments_simps:
  "line_comments 0 = []"
  "line_comments (Suc n) = CHR ''/'' # CHR ''/'' # CHR 0x0A # line_comments n"
  by (simp_all add: line_comments_def)

lemma insignificant_line_comments: "insignificant (line_comments n)"
proof (induction n)
  case 0
  show ?case by (simp add: line_comments_simps insignificant.empty)
next
  case (Suc n)
  have "isspace (CHR 0x0A)" by (simp add: isspace_def)
  from this Suc have "insignificant (CHR 0x0A # line_comments n)" by (rule insignificant.space)
  then have "insignificant (''//'' @ [] @ (CHR 0x0A # line_comments n))"
    by (intro insignificant.line_comment) simp_all
  then show ?case by (simp add: line_comments_simps)
qed

lemma next_token_line_comments:
  "drop (position s) (source s) = line_comments (d + k) \<Longrightarrow>
   fst (next_token d s) = Inl RecursionError"
proof (induction d arbitrary: s)
  case 0
  show ?case by (simp add: next_token_exhausted)
next
  case (Suc d)
  from Suc.prems
  have d: "drop (position s) (source s) =
      CHR ''/'' # CHR ''/'' # ([] @ (CHR 0x0A # line_comments (d + k)))"
    by (simp add: line_comments_simps)
  note e = drop_eq_Cons2 [OF d]
  have w: "skip_whitespace s = s"
    using e by (intro skip_whitespace_stop) (simp_all add: not_isspace_slash)
  have "at_line_comment s"
    using e by (simp add: at_line_comment_def)
  then have nt: "next_token (Suc d) s = next_token d (skip_line_comment s)"
    using next_token_line_comment [of s d] w by simp
  let ?s2 = "s\<lparr>position := position s + 2\<rparr>"
  have s2: "drop (position ?s2) (source ?s2) = [] @ (CHR 0x0A # line_comments (d + k))"
    using e by simp
  from skip_line_comment_loop_body [OF s2]
  have slc: "skip_line_comment s = ?s2"
    by (simp add: skip_line_comment_def)
  note f = drop_eq_Cons [OF s2 [simplified]]
  show ?case
  proof (cases d)
    case 0
    with nt show ?thesis by (simp add: next_token_exhausted)
  next
    case (Suc d')
    have sp: "isspace (source ?s2 ! position ?s2)"
      using f by (simp add: isspace_def)
    have "next_token d ?s2 = next_token d (advance_char ?s2)"
      unfolding Suc using f(1) sp by (intro next_token_space) simp_all
    moreover have "drop (position (advance_char ?s2)) (source (advance_char ?s2)) =
        line_comments (d + k)"
      using f sp by simp
    ultimately show ?thesis using Suc.IH [of "advance_char ?s2"] nt slc by simp
  qed
qed

text \<open>
  Claim C3 says that the scan of every text of whitespace and comments only succeeds,
  with the end-of-input token as the only token. \<open>next_token\<close> calls itself after every
  comment it has skipped, so it takes one more activation than the text has comments
  before its end. The text of \<open>d + k\<close> empty line comments, one on each line, consists of
  whitespace and comments only, and its scan, where the stack has room for \<open>d\<close>
  activations of \<open>next_token\<close>, raises the error of the exhausted stack: whatever room
  the stack has, the scan of such a text of that many comments or more fails. So does
  the scan of 1000 comments with all the frames of Python's default recursion limit.
\<close>

theorem comments_exhaust_stack:
  "insignificant (line_comments (d + k)) \<and>
   fst (analyze d (LexicalAnalyzer_init (line_comments (d + k)))) = Inl RecursionError \<and>
   fst (analyze recursion_limit (LexicalAnalyzer_init (line_comments recursion_limit))) =
     Inl RecursionError"
proof -
  have fails: "fst (analyze n (LexicalAnalyzer_init (line_comments (n + j)))) =
      Inl RecursionError" for n j
  proof -
    let ?s = "LexicalAnalyzer_init (line_comments (n + j))"
    have "drop (position ?s) (source ?s) = line_comments (n + j)"
      by (simp add: LexicalAnalyzer_init_def initialize_built_in_functions_def Let_def)
    from next_token_line_comments [OF this]
    have "fst (next_token n ?s) = Inl RecursionError" .
    then show ?thesis
      by (cases "next_token n ?s") (simp add: analyze.simps [of n ?s])
  qed
  from fails [of d k] fails [of recursion_limit 0] insignificant_line_comments [of "d + k"]
  show ?thesis by simp
qed
section \<open>Registration of identifiers in the symbol table\<close>

text \<open>
  \<open>entries t n\<close> are the items of the dict of scope \<open>t\<close> whose key is \<open>n\<close>;
  \<open>identifier_seen s n\<close> says that the scanner's list of tokens holds an IDENTIFIER token
  with the text \<open>n\<close>. \<open>read_info\<close> and \<open>write_info\<close> are the two entries that
  \<open>initialize_built_in_functions\<close> seeds.
\<close>

definition entries :: "SymbolTable \<Rightarrow> string \<Rightarrow> (string \<times> SymbolInfo) list" where
  "entries t n = filter (\<lambda>(k, v). k = n) (symbols t)"

definition identifier_seen :: "LexicalAnalyzer \<Rightarrow> string \<Rightarrow> bool" where
  "identifier_seen s n \<longleftrightarrow> (\<exists>t\<in>set (tokens s). tok_type t = IDENTIFIER \<and> tok_value t = n)"

definition read_info :: SymbolInfo where
  "read_info =
     \<lparr>name = ''read'', info_type = ''function'', is_local = True, array_length = - 1,
      return_type = Some ''any'', param_types = [''void''], local_var_count = 0\<rparr>"

definition write_info :: SymbolInfo where
  "write_info =
     \<lparr>name = ''write'', info_type = ''function'', is_local = True, array_length = - 1,
      return_type = Some ''void'', param_types = [''any''], local_var_count = 0\<rparr>"

lemma LexicalAnalyzer_init_fields:
  "source (LexicalAnalyzer_init src) = src" "position (LexicalAnalyzer_init src) = 0"
  "line (LexicalAnalyzer_init src) = 1" "column (LexicalAnalyzer_init src) = 1"
  "tokens (LexicalAnalyzer_init src) = []"
  "symbol_table (LexicalAnalyzer_init src) =
     SymbolTable [(''read'', read_info), (''write'', write_info)] None ''global''"
  by (simp_all add: LexicalAnalyzer_init_def initialize_built_in_functions_def Let_def
      insert_symbol_def SymbolTable_init_def SymbolInfo_init_def read_info_def write_info_def)

subsection \<open>The dict and the scope chain\<close>

lemma dict_set_absent: "k \<notin> fst ` set d \<Longrightarrow> dict_set d k v = d @ [(k, v)]"
  by (induction d) auto

lemma map_of_dict_set: "map_of (dict_set d k v) = (map_of d)(k \<mapsto> v)"
  by (induction d) (auto simp: fun_eq_iff)

lemma map_of_filter_key: "map_of (filter (\<lambda>(k, v). k = n) d) n = map_of d n"
  by (induction d) auto

lemma lookup_symbols:
  "lookup t n =
     (case map_of (symbols t) n of
        Some info \<Rightarrow> Some info
      | None \<Rightarrow> (case parent t of Some p \<Rightarrow> lookup p n | None \<Rightarrow> None))"
  by (cases t) (simp split: option.split)

lemma lookup_None_absent: "lookup t n = None \<Longrightarrow> n \<notin> fst ` set (symbols t)"
  by (simp add: lookup_symbols map_of_eq_None_iff split: option.splits)

lemma lookup_insert_other: "n \<noteq> k \<Longrightarrow> lookup (insert_symbol t k v) n = lookup t n"
  by (simp add: lookup_symbols [of "insert_symbol t k v"] lookup_symbols [of t] insert_symbol_def
      map_of_dict_set)

lemma lookup_insert_same: "lookup (insert_symbol t k v) k = Some v"
  by (simp add: lookup_symbols [of "insert_symbol t k v"] insert_symbol_def map_of_dict_set)

lemma entries_lookup: "entries t n = [(n, i)] \<Longrightarrow> lookup t n = Some i"
  using map_of_filter_key [of n "symbols t", symmetric]
  by (simp add: entries_def lookup_symbols [of t])

lemma entries_Nil_iff: "entries t n = [] \<longleftrightarrow> n \<notin> fst ` set (symbols t)"
  by (force simp: entries_def filter_empty_conv)

lemma entries_insert:
  "lookup t k = None \<Longrightarrow>
   entries (insert_symbol t k v) n = entries t n @ (if n = k then [(k, v)] else [])"
  by (simp add: entries_def insert_symbol_def dict_set_absent [OF lookup_None_absent])

lemma parent_insert [simp]: "parent (insert_symbol t k v) = parent t"
  by (simp add: insert_symbol_def)

subsection \<open>What one call of \<open>next_token\<close> does to the table\<close>

text \<open>
  \<open>table_step t r t'\<close>: the table is unchanged, or the call returned an IDENTIFIER token
  whose name had no entry, and the table gained the entry of declared type \<open>unknown\<close>
  for that name.
\<close>

definition table_step :: "SymbolTable \<Rightarrow> 'e + Token \<Rightarrow> SymbolTable \<Rightarrow> bool" where
  "table_step t r t' \<longleftrightarrow>
     t' = t \<or>
     (\<exists>n l c. r = Inr (Token IDENTIFIER n l c) \<and> lookup t n = None \<and>
        t' = insert_symbol t n (SymbolInfo_init n ''unknown''))"

lemma table_step_refl [simp]: "table_step t r t"
  by (simp add: table_step_def)

lemma KEYWORDS_not_IDENTIFIER: "map_of KEYWORDS x = Some kw \<Longrightarrow> kw \<noteq> IDENTIFIER"
  by (auto simp: KEYWORDS_def split: if_splits)

lemma OPERATORS_not_IDENTIFIER: "map_of OPERATORS x = Some kw \<Longrightarrow> kw \<noteq> IDENTIFIER"
  by (auto simp: OPERATORS_def split: if_splits)

lemma single_character_not_IDENTIFIER:
  "find (\<lambda>token_type. TokenType_value token_type = [c]) TokenType_members = Some t \<Longrightarrow>
   t \<noteq> IDENTIFIER"
  by (auto simp: find_Some_iff)

lemma scan_identifier_result:
  assumes "scan_identifier s = (r, s')"
  obtains (keyword) n kw where "map_of KEYWORDS n = Some kw"
      "r = Inr (Token kw n (line s) (column s))" "symbol_table s' = symbol_table s"
    | (known) n where "map_of KEYWORDS n = None" "lookup (symbol_table s) n \<noteq> None"
      "r = Inr (Token IDENTIFIER n (line s) (column s))" "symbol_table s' = symbol_table s"
    | (new) n where "map_of KEYWORDS n = None" "lookup (symbol_table s) n = None"
      "r = Inr (Token IDENTIFIER n (line s) (column s))"
      "symbol_table s' = insert_symbol (symbol_table s) n (SymbolInfo_init n ''unknown'')"
proof -
  obtain t n where loop: "scan_identifier_loop s [] = (t, n)"
    by (cases "scan_identifier_loop s []")
  have t: "symbol_table t = symbol_table s" "line t = line s"
    using scan_identifier_loop_frame [of s "[]"] loop by simp_all
  show ?thesis
  proof (cases "map_of KEYWORDS n")
    case (Some kw)
    with assms loop t show ?thesis
      by (intro keyword [of n kw]) (auto simp: scan_identifier_def Let_def)
  next
    case None
    show ?thesis
    proof (cases "lookup (symbol_table s) n")
      case (Some i)
      with assms loop t None show ?thesis
        by (intro known [of n]) (auto simp: scan_identifier_def Let_def)
    next
      case no: None
      with assms loop t None show ?thesis
        by (intro new [of n]) (auto simp: scan_identifier_def Let_def)
    qed
  qed
qed

lemma scan_identifier_table:
  assumes "scan_identifier s = (r, s')"
  shows "table_step (symbol_table s) r (symbol_table s')"
    and "r = Inr tok \<Longrightarrow> tok_type tok = IDENTIFIER \<Longrightarrow>
         map_of KEYWORDS (tok_value tok) = None \<and> lookup (symbol_table s') (tok_value tok) \<noteq> None"
  using assms
  by (cases rule: scan_identifier_result;
      auto simp: table_step_def lookup_insert_same dest: KEYWORDS_not_IDENTIFIER)+

lemma scan_number_type:
  "scan_number s = (Inr tok, s') \<Longrightarrow> tok_type tok = INT_LIT \<or> tok_type tok = FLOAT_LIT"
  by (auto simp: scan_number_def Let_def split: prod.splits if_splits)

lemma scan_token_table:
  assumes "scan_token s = (r, s')"
  shows "table_step (symbol_table s) r (symbol_table s')"
    and "r = Inr tok \<Longrightarrow> tok_type tok = IDENTIFIER \<Longrightarrow>
         map_of KEYWORDS (tok_value tok) = None \<and> lookup (symbol_table s') (tok_value tok) \<noteq> None"
proof -
  let ?c = "source s ! position s"
  consider (number) "scan_token s = scan_number s"
    | (ident) "scan_token s = scan_identifier s"
    | (other) "symbol_table s' = symbol_table s" "\<And>tok. r = Inr tok \<Longrightarrow> tok_type tok \<noteq> IDENTIFIER"
    using assms
    by (auto simp: scan_token_def Let_def split: if_splits option.splits
        dest: OPERATORS_not_IDENTIFIER single_character_not_IDENTIFIER)
  then have "table_step (symbol_table s) r (symbol_table s') \<and>
     (r = Inr tok \<longrightarrow> tok_type tok = IDENTIFIER \<longrightarrow>
        map_of KEYWORDS (tok_value tok) = None \<and> lookup (symbol_table s') (tok_value tok) \<noteq> None)"
  proof cases
    case number
    with assms have n: "scan_number s = (r, s')" by simp
    then have "symbol_table s' = symbol_table s"
      using scan_number_frame [of s] by simp
    with n scan_number_type [of s tok s'] show ?thesis by auto
  next
    case ident
    with assms have "scan_identifier s = (r, s')" by simp
    from scan_identifier_table [OF this] show ?thesis by blast
  next
    case other
    then show ?thesis by auto
  qed
  then show "table_step (symbol_table s) r (symbol_table s')"
    and "r = Inr tok \<Longrightarrow> tok_type tok = IDENTIFIER \<Longrightarrow>
         map_of KEYWORDS (tok_value tok) = None \<and> lookup (symbol_table s') (tok_value tok) \<noteq> None"
    by blast+
qed

lemma next_token_table:
  "next_token d s = (r, s') \<Longrightarrow>
   table_step (symbol_table s) r (symbol_table s') \<and>
   (\<forall>tok. r = Inr tok \<longrightarrow> tok_type tok = IDENTIFIER \<longrightarrow>
      map_of KEYWORDS (tok_value tok) = None \<and> lookup (symbol_table s') (tok_value tok) \<noteq> None)"
proof (induction d s rule: next_token_induct)
  case (exhausted s)
  then show ?case by (auto simp: next_token_exhausted)
next
  case (eof d s)
  then show ?case by (auto simp: next_token_eof)
next
  case (line_comment d s)
  then show ?case by (simp add: next_token_line_comment)
next
  case (block_error d s e t)
  then show ?case
    using skip_block_comment_frame(2) [of "skip_whitespace s" "Inl e" t]
    by (auto simp: next_token_block_comment)
next
  case (block_comment d s t)
  then show ?case
    using skip_block_comment_frame(2) [of "skip_whitespace s" "Inr ()" t]
    by (simp add: next_token_block_comment)
next
  case (token d s)
  then have rl: "raise_lexical (scan_token (skip_whitespace s)) = (r, s')"
    by (simp add: next_token_scan_token)
  have "snd (scan_token (skip_whitespace s)) = s'"
    using snd_raise_lexical [of "scan_token (skip_whitespace s)"] by (simp add: rl)
  then obtain r0 where sc: "scan_token (skip_whitespace s) = (r0, s')"
    by (cases "scan_token (skip_whitespace s)") auto
  have rr: "r = Inr tok \<longleftrightarrow> r0 = Inr tok" for tok
    using rl sc by (cases r0) auto
  from scan_token_table [OF sc] rr show ?case by (auto simp: table_step_def)
qed

text \<open>An entry that is in the table is still there, unchanged, after \<open>next_token\<close>.\<close>

lemma table_step_lookup:
  "table_step t r t' \<Longrightarrow> lookup t n = Some i \<Longrightarrow> lookup t' n = Some i"
proof -
  assume step: "table_step t r t'" and n: "lookup t n = Some i"
  show ?thesis
  proof (cases "t' = t")
    case True
    with n show ?thesis by simp
  next
    case False
    with step obtain m where m: "lookup t m = None"
        "t' = insert_symbol t m (SymbolInfo_init m ''unknown'')"
      by (auto simp: table_step_def)
    with n have "n \<noteq> m" by auto
    with m n show ?thesis by (simp add: lookup_insert_other)
  qed
qed

lemma table_step_entries:
  "table_step t r t' \<Longrightarrow> entries t n = [(n, i)] \<Longrightarrow> entries t' n = [(n, i)]"
proof -
  assume step: "table_step t r t'" and n: "entries t n = [(n, i)]"
  show ?thesis
  proof (cases "t' = t")
    case True
    with n show ?thesis by simp
  next
    case False
    with step obtain m where m: "lookup t m = None"
        "t' = insert_symbol t m (SymbolInfo_init m ''unknown'')"
      by (auto simp: table_step_def)
    with entries_lookup [OF n] have "n \<noteq> m" by auto
    with m n show ?thesis by (simp add: entries_insert)
  qed
qed

lemma table_step_parent: "table_step t r t' \<Longrightarrow> parent t' = parent t"
  by (auto simp: table_step_def)

subsection \<open>Invariants of the driver loop\<close>

lemma analyze_invariant:
  assumes step: "\<And>d s r s'. I s \<Longrightarrow> next_token d s = (r, s') \<Longrightarrow>
      (case r of Inl e \<Rightarrow> I s' | Inr tok \<Rightarrow> I (s'\<lparr>tokens := tokens s' @ [tok]\<rparr>))"
    and init: "I s"
  shows "I (snd (analyze d s))"
  using init
proof (induction d s rule: analyze.induct)
  case (1 d s)
  obtain r t where nt: "next_token d s = (r, t)" by (cases "next_token d s")
  note st = step [OF "1.prems" nt]
  show ?case
  proof (cases r)
    case (Inl e)
    with nt st show ?thesis by (simp add: analyze.simps [of d s])
  next
    case (Inr tok)
    with st have I': "I (t\<lparr>tokens := tokens t @ [tok]\<rparr>)" by simp
    show ?thesis
    proof (cases "tok_type tok = EOF")
      case True
      with nt Inr I' show ?thesis by (simp add: analyze.simps [of d s])
    next
      case False
      from "1.IH" [OF nt [symmetric] Inr False I'] nt Inr False show ?thesis
        by (simp add: analyze.simps [of d s])
    qed
  qed
qed

text \<open>An entry of the table is still there, unchanged, after a scan from any state.\<close>

lemma next_token_entries:
  "entries (symbol_table s) n = [(n, i)] \<Longrightarrow>
   entries (symbol_table (snd (next_token d s))) n = [(n, i)]"
  using next_token_table [of d s "fst (next_token d s)" "snd (next_token d s)"]
  by (auto dest: table_step_entries)

lemma next_token_lookup:
  "lookup (symbol_table s) n = Some i \<Longrightarrow>
   lookup (symbol_table (snd (next_token d s))) n = Some i"
  using next_token_table [of d s "fst (next_token d s)" "snd (next_token d s)"]
  by (auto dest: table_step_lookup)

lemma analyze_entries:
  assumes "entries (symbol_table s) n = [(n, i)]"
  shows "entries (symbol_table (snd (analyze d s))) n = [(n, i)]"
proof (rule analyze_invariant [where I = "\<lambda>s. entries (symbol_table s) n = [(n, i)]"])
  fix d s and r :: "PyException + Token" and s'
  assume "entries (symbol_table s) n = [(n, i)]" and "next_token d s = (r, s')"
  then have "entries (symbol_table s') n = [(n, i)]"
    using next_token_entries [of s n i d] by simp
  then show "case r of Inl e \<Rightarrow> entries (symbol_table s') n = [(n, i)]
    | Inr tok \<Rightarrow> entries (symbol_table (s'\<lparr>tokens := tokens s' @ [tok]\<rparr>)) n = [(n, i)]"
    by (simp split: sum.split)
qed (rule assms)

subsection \<open>Tokens with the text of a built-in name\<close>

lemma builtin_not_keyword: "map_of KEYWORDS ''read'' = None" "map_of KEYWORDS ''write'' = None"
  by (simp_all add: KEYWORDS_def)

lemma scan_number_value:
  assumes "position s < length (source s)" and "isdigit (source s ! position s)"
    and "scan_number s = (Inr tok, s')"
  shows "\<exists>r. tok_value tok = (source s ! position s) # r"
proof -
  let ?r = "drop (position s) (source s)"
  have "?r = (source s ! position s) # drop (Suc (position s)) (source s)"
    using assms(1) by (simp add: Cons_nth_drop_Suc)
  then have "number_text ?r = (source s ! position s) # number_text (drop (Suc (position s)) (source s))"
    using number_text_digit [OF assms(2)] by simp
  moreover have "tok_value tok = number_text ?r"
    using assms(3) scan_number_loop_text [of s ?r "[]"]
    by (auto simp: scan_number_def Let_def split: if_splits)
  ultimately show ?thesis by simp
qed

lemma scan_token_builtin_value:
  assumes "position s < length (source s)" and "scan_token s = (Inr tok, s')"
    and "tok_value tok = ''read'' \<or> tok_value tok = ''write''"
  shows "tok_type tok = IDENTIFIER"
proof -
  let ?c = "source s ! position s"
  consider (number) "isdigit ?c" "scan_token s = scan_number s"
    | (ident) "scan_token s = scan_identifier s"
    | (other) "length (tok_value tok) \<le> 2"
    using assms(2)
    by (auto simp: scan_token_def Let_def split: if_splits option.splits)
  then show ?thesis
  proof cases
    case number
    with assms(2) have "scan_number s = (Inr tok, s')" by simp
    from scan_number_value [OF assms(1) number(1) this] assms(3)
    have "?c = CHR ''r'' \<or> ?c = CHR ''w''" by auto
    moreover have "\<not> isdigit (CHR ''r'')" "\<not> isdigit (CHR ''w'')"
      by (simp_all add: isdigit_def)
    ultimately show ?thesis using number(1) by auto
  next
    case ident
    with assms(2) have "scan_identifier s = (Inr tok, s')" by simp
    then show ?thesis
      using assms(3) by (cases rule: scan_identifier_result) (auto simp: builtin_not_keyword)
  next
    case other
    with assms(3) show ?thesis by auto
  qed
qed

lemma next_token_builtin_value:
  "next_token d s = (Inr tok, s') \<Longrightarrow> tok_value tok = ''read'' \<or> tok_value tok = ''write'' \<Longrightarrow>
   tok_type tok = IDENTIFIER"
proof (induction d s rule: next_token_induct)
  case (exhausted s)
  then show ?case by (simp add: next_token_exhausted)
next
  case (eof d s)
  then show ?case by (auto simp: next_token_eof)
next
  case (line_comment d s)
  then show ?case by (simp add: next_token_line_comment)
next
  case (block_error d s e t)
  then show ?case by (simp add: next_token_block_comment)
next
  case (block_comment d s t)
  then show ?case by (simp add: next_token_block_comment)
next
  case (token d s)
  then have "scan_token (skip_whitespace s) = (Inr tok, s')"
    by (simp add: next_token_scan_token)
  from scan_token_builtin_value [OF _ this token.prems(2)] token.hyps(1) show ?case by simp
qed

text \<open>
  Claim C10: for every source text, after the scan (whether it returned or raised, and
  whatever room the stack had) the dict of the table holds for \<open>read\<close> and for \<open>write\<close>
  exactly the one entry seeded before the scan, with its declared type \<open>function\<close>, its
  return type and its parameter types, so no entry of declared type \<open>unknown\<close> was added
  for them; \<open>lookup\<close> finds these entries; and every token of the scan with the text
  \<open>read\<close> or \<open>write\<close> is an IDENTIFIER token.
\<close>

theorem builtin_entries_unchanged:
  "let s' = snd (analyze d (LexicalAnalyzer_init src)) in
     entries (symbol_table s') ''read'' = [(''read'', read_info)] \<and>
     entries (symbol_table s') ''write'' = [(''write'', write_info)] \<and>
     lookup (symbol_table s') ''read'' = Some read_info \<and>
     lookup (symbol_table s') ''write'' = Some write_info \<and>
     (\<forall>t\<in>set (tokens s').
        tok_value t = ''read'' \<or> tok_value t = ''write'' \<longrightarrow> tok_type t = IDENTIFIER)"
proof -
  let ?s = "LexicalAnalyzer_init src"
  let ?s' = "snd (analyze d ?s)"
  have r: "entries (symbol_table ?s') ''read'' = [(''read'', read_info)]"
    by (rule analyze_entries) (simp add: LexicalAnalyzer_init_fields entries_def)
  have w: "entries (symbol_table ?s') ''write'' = [(''write'', write_info)]"
    by (rule analyze_entries) (simp add: LexicalAnalyzer_init_fields entries_def)
  have "\<forall>t\<in>set (tokens ?s').
      tok_value t = ''read'' \<or> tok_value t = ''write'' \<longrightarrow> tok_type t = IDENTIFIER"
  proof (rule analyze_invariant [where I = "\<lambda>s. \<forall>t\<in>set (tokens s).
      tok_value t = ''read'' \<or> tok_value t = ''write'' \<longrightarrow> tok_type t = IDENTIFIER"])
    fix d s and r :: "PyException + Token" and s'
    assume inv: "\<forall>t\<in>set (tokens s).
        tok_value t = ''read'' \<or> tok_value t = ''write'' \<longrightarrow> tok_type t = IDENTIFIER"
      and nt: "next_token d s = (r, s')"
    have tk: "tokens s' = tokens s" using next_token_tokens [of d s] nt by simp
    show "case r of
        Inl e \<Rightarrow> \<forall>t\<in>set (tokens s').
          tok_value t = ''read'' \<or> tok_value t = ''write'' \<longrightarrow> tok_type t = IDENTIFIER
      | Inr tok \<Rightarrow> \<forall>t\<in>set (tokens (s'\<lparr>tokens := tokens s' @ [tok]\<rparr>)).
          tok_value t = ''read'' \<or> tok_value t = ''write'' \<longrightarrow> tok_type t = IDENTIFIER"
    proof (cases r)
      case (Inl e)
      with inv tk show ?thesis by simp
    next
      case (Inr tok)
      with nt next_token_builtin_value [of d s tok s'] inv tk show ?thesis by auto
    qed
  next
    show "\<forall>t\<in>set (tokens ?s).
        tok_value t = ''read'' \<or> tok_value t = ''write'' \<longrightarrow> tok_type t = IDENTIFIER"
      by (simp add: LexicalAnalyzer_init_fields)
  qed
  with r w entries_lookup [OF r] entries_lookup [OF w] show ?thesis
    by (simp add: Let_def)
qed

theorem builtin_entries_unchanged_witness:
  "Token IDENTIFIER ''read'' 1 1
     \<in> set (tokens (snd (analyze (Suc 0) (LexicalAnalyzer_init ''read(x); write(x);'')))) \<and>
   tok_value (Token IDENTIFIER ''read'' 1 1) = ''read'' \<and>
   tok_type (Token IDENTIFIER ''read'' 1 1) = IDENTIFIER \<and>
   lookup (symbol_table (snd (analyze (Suc 0) (LexicalAnalyzer_init ''read(x); write(x);''))))
     ''read'' = Some read_info \<and>
   entries (symbol_table (snd (analyze (Suc 0) (LexicalAnalyzer_init ''read(x); write(x);''))))
     ''write'' = [(''write'', write_info)]"
proof -
  have "Token IDENTIFIER ''read'' 1 1
     \<in> set (tokens (snd (analyze (Suc 0) (LexicalAnalyzer_init ''read(x); write(x);''))))"
    by code_simp
  with builtin_entries_unchanged [of "Suc 0" "''read(x); write(x);''"] show ?thesis
    by (simp add: Let_def)
qed

subsection \<open>The table and the identifiers of the scan\<close>

text \<open>
  The invariant of the driver loop: the scope has no parent, the built-in names have
  entries, any other name has an entry exactly when an IDENTIFIER token with that name
  is in the list of tokens, that entry is the one of declared type \<open>unknown\<close>, and no
  IDENTIFIER token has the text of a keyword.
\<close>

definition registered :: "LexicalAnalyzer \<Rightarrow> bool" where
  "registered s \<longleftrightarrow>
     parent (symbol_table s) = None \<and>
     entries (symbol_table s) ''read'' \<noteq> [] \<and> entries (symbol_table s) ''write'' \<noteq> [] \<and>
     (\<forall>n. n \<noteq> ''read'' \<longrightarrow> n \<noteq> ''write'' \<longrightarrow>
        entries (symbol_table s) n =
          (if identifier_seen s n then [(n, SymbolInfo_init n ''unknown'')] else [])) \<and>
     (\<forall>t\<in>set (tokens s). tok_type t = IDENTIFIER \<longrightarrow> map_of KEYWORDS (tok_value t) = None)"

lemma lookup_entries_Nil: "parent t = None \<Longrightarrow> lookup t n = None \<longleftrightarrow> entries t n = []"
proof -
  assume "parent t = None"
  then have "lookup t n = map_of (symbols t) n"
    by (simp add: lookup_symbols [of t] split: option.split)
  then show ?thesis by (simp add: entries_Nil_iff map_of_eq_None_iff)
qed

lemma registered_init: "registered (LexicalAnalyzer_init src)"
  by (auto simp: registered_def LexicalAnalyzer_init_fields entries_def identifier_seen_def)

lemma registered_step:
  assumes inv: "registered s" and nt: "next_token d s = (r, s')"
  shows "case r of Inl e \<Rightarrow> registered s'
    | Inr tok \<Rightarrow> registered (s'\<lparr>tokens := tokens s' @ [tok]\<rparr>)"
proof -
  let ?T = "symbol_table s" and ?T' = "symbol_table s'"
  from next_token_table [OF nt]
  have step: "table_step ?T r ?T'"
    and idf: "\<And>tok. r = Inr tok \<Longrightarrow> tok_type tok = IDENTIFIER \<Longrightarrow>
      map_of KEYWORDS (tok_value tok) = None \<and> lookup ?T' (tok_value tok) \<noteq> None"
    by blast+
  have tk: "tokens s' = tokens s" using next_token_tokens [of d s] nt by simp
  from inv have par: "parent ?T = None"
    and rd: "entries ?T ''read'' \<noteq> []" and wr: "entries ?T ''write'' \<noteq> []"
    and ent: "\<And>n. n \<noteq> ''read'' \<Longrightarrow> n \<noteq> ''write'' \<Longrightarrow>
      entries ?T n = (if identifier_seen s n then [(n, SymbolInfo_init n ''unknown'')] else [])"
    and kw: "\<And>t. t \<in> set (tokens s) \<Longrightarrow> tok_type t = IDENTIFIER \<Longrightarrow>
      map_of KEYWORDS (tok_value t) = None"
    by (simp_all add: registered_def)
  show ?thesis
  proof (cases r)
    case (Inl e)
    with step have "?T' = ?T" by (simp add: table_step_def)
    with inv tk Inl show ?thesis by (simp add: registered_def identifier_seen_def)
  next
    case (Inr tok)
    let ?s'' = "s'\<lparr>tokens := tokens s' @ [tok]\<rparr>"
    have seen: "identifier_seen ?s'' n \<longleftrightarrow>
        identifier_seen s n \<or> (tok_type tok = IDENTIFIER \<and> tok_value tok = n)" for n
      by (auto simp: identifier_seen_def tk)
    have kw': "\<forall>t\<in>set (tokens ?s''). tok_type t = IDENTIFIER \<longrightarrow>
        map_of KEYWORDS (tok_value t) = None"
      using kw idf [OF Inr] by (auto simp: tk)
    have "registered ?s''"
    proof (cases "?T' = ?T")
      case same: True
      have "entries ?T n =
          (if identifier_seen ?s'' n then [(n, SymbolInfo_init n ''unknown'')] else [])"
        if n: "n \<noteq> ''read''" "n \<noteq> ''write''" for n
      proof (cases "tok_type tok = IDENTIFIER \<and> tok_value tok = n")
        case False
        with ent [OF n] seen [of n] show ?thesis by simp
      next
        case True
        with idf [OF Inr] same have "lookup ?T n \<noteq> None" by auto
        then have "entries ?T n \<noteq> []" using par by (simp add: lookup_entries_Nil)
        with ent [OF n] have "identifier_seen s n" by (simp split: if_splits)
        with ent [OF n] seen [of n] show ?thesis by simp
      qed
      with same par rd wr kw' show ?thesis by (simp add: registered_def)
    next
      case False
      with step Inr obtain m l c where m: "tok = Token IDENTIFIER m l c" "lookup ?T m = None"
          "?T' = insert_symbol ?T m (SymbolInfo_init m ''unknown'')"
        by (auto simp: table_step_def)
      have em: "entries ?T m = []"
        using m(2) by (simp add: entries_Nil_iff lookup_None_absent)
      with rd wr have mb: "m \<noteq> ''read''" "m \<noteq> ''write''" by auto
      from ent [OF mb] em have ns: "\<not> identifier_seen s m" by (simp split: if_splits)
      have E: "entries ?T' n =
          entries ?T n @ (if n = m then [(m, SymbolInfo_init m ''unknown'')] else [])" for n
        by (simp add: m(3) entries_insert [OF m(2)])
      have "entries ?T' n =
          (if identifier_seen ?s'' n then [(n, SymbolInfo_init n ''unknown'')] else [])"
        if n: "n \<noteq> ''read''" "n \<noteq> ''write''" for n
        using ent [OF n] E [of n] seen [of n] em ns m(1) by (cases "n = m") auto
      moreover have "parent ?T' = None" using par m(3) by simp
      moreover have "entries ?T' ''read'' \<noteq> []" "entries ?T' ''write'' \<noteq> []"
        using rd wr E by simp_all
      ultimately show ?thesis using kw' by (simp add: registered_def)
    qed
    with Inr show ?thesis by simp
  qed
qed

lemma registered_analyze: "registered (snd (analyze d (LexicalAnalyzer_init src)))"
  by (rule analyze_invariant [where I = registered]) (simp_all add: registered_step registered_init)

lemma next_token_registers:
  assumes "next_token d s = (Inr tok, s')" and "tok_type tok = IDENTIFIER"
    and "lookup (symbol_table s) (tok_value tok) = None"
  shows "symbol_table s' =
    insert_symbol (symbol_table s) (tok_value tok) (SymbolInfo_init (tok_value tok) ''unknown'')"
proof -
  from next_token_table [OF assms(1)] assms(2)
  have step: "table_step (symbol_table s) (Inr tok :: PyException + Token) (symbol_table s')"
    and found: "lookup (symbol_table s') (tok_value tok) \<noteq> None"
    by simp_all
  from found assms(3) have "symbol_table s' \<noteq> symbol_table s" by auto
  with step show ?thesis by (auto simp: table_step_def)
qed

text \<open>
  Claim C4 says that the first occurrence of every non-keyword identifier inserts an
  entry of declared type \<open>unknown\<close>. For the pre-seeded names it does not: the scan of
  the text \<^verbatim>\<open>read\<close>, with the whole of Python's default recursion limit as room on the
  stack, returns the IDENTIFIER token \<open>read\<close>, which is no keyword, leaves the table as
  it was, and the two entries of the table after the scan have the declared type
  \<open>function\<close>.
\<close>

theorem builtin_identifier_inserts_nothing:
  "fst (next_token recursion_limit (LexicalAnalyzer_init ''read'')) =
     Inr (Token IDENTIFIER ''read'' 1 1) \<and>
   map_of KEYWORDS ''read'' = None \<and>
   symbol_table (snd (next_token recursion_limit (LexicalAnalyzer_init ''read''))) =
     symbol_table (LexicalAnalyzer_init ''read'') \<and>
   map (info_type \<circ> snd)
     (symbols (symbol_table (snd (analyze recursion_limit (LexicalAnalyzer_init ''read''))))) =
     [''function'', ''function'']"
proof -
  let ?I = "LexicalAnalyzer_init ''read''"
  have lim: "recursion_limit = Suc 0 + 999" by (simp add: recursion_limit_def)
  have a: "fst (next_token (Suc 0) ?I) = Inr (Token IDENTIFIER ''read'' 1 1)"
    by code_simp
  have b: "symbol_table (snd (next_token (Suc 0) ?I)) = symbol_table ?I"
    by code_simp
  have c: "fst (analyze (Suc 0) ?I) \<noteq> Inl RecursionError"
    by code_simp
  have e: "map (info_type \<circ> snd) (symbols (symbol_table (snd (analyze (Suc 0) ?I)))) =
      [''function'', ''function'']"
    by code_simp
  have k: "map_of KEYWORDS ''read'' = None" by (rule builtin_not_keyword)
  have "next_token recursion_limit ?I = next_token (Suc 0) ?I"
    unfolding lim using a by (intro next_token_more) simp
  moreover have "analyze recursion_limit ?I = analyze (Suc 0) ?I"
    unfolding lim using c by (rule analyze_more)
  ultimately show ?thesis using a b e k by simp
qed

text \<open>
  Claim C4 as amended. A call of \<open>next_token\<close> that returns an IDENTIFIER token whose
  name \<open>lookup\<close> does not find inserts for that name the entry of declared type
  \<open>unknown\<close>; an entry that \<open>lookup\<close> finds is the same after the call, so a later
  occurrence never overwrites it. After the scan of a source text (whether it returned
  or raised, and whatever room the stack had), every name other than the pre-seeded
  \<open>read\<close> and \<open>write\<close> has exactly one entry, of declared type \<open>unknown\<close>, when the scan
  produced an IDENTIFIER token with that name, and no entry otherwise; a keyword (\<open>true\<close>
  and \<open>false\<close> included) has no entry. For the text \<^verbatim>\<open>int x; int x;\<close> the keys of the table
  are \<open>read\<close>, \<open>write\<close> and \<open>x\<close>, with any room on the stack that lets a call of
  \<open>next_token\<close> start (\<open>Suc e\<close>).
\<close>

theorem identifier_registration:
  "(next_token d s = (Inr tok, s') \<longrightarrow> tok_type tok = IDENTIFIER \<longrightarrow>
      lookup (symbol_table s) (tok_value tok) = None \<longrightarrow>
      symbol_table s' =
        insert_symbol (symbol_table s) (tok_value tok)
          (SymbolInfo_init (tok_value tok) ''unknown'')) \<and>
   (lookup (symbol_table s) n = Some i \<longrightarrow>
      lookup (symbol_table (snd (next_token d s))) n = Some i) \<and>
   (m \<noteq> ''read'' \<longrightarrow> m \<noteq> ''write'' \<longrightarrow>
      entries (symbol_table (snd (analyze d (LexicalAnalyzer_init src)))) m =
        (if identifier_seen (snd (analyze d (LexicalAnalyzer_init src))) m
         then [(m, SymbolInfo_init m ''unknown'')] else [])) \<and>
   (map_of KEYWORDS k \<noteq> None \<longrightarrow>
      entries (symbol_table (snd (analyze d (LexicalAnalyzer_init src)))) k = []) \<and>
   map fst (symbols (symbol_table
       (snd (analyze (Suc e) (LexicalAnalyzer_init ''int x; int x;''))))) =
     [''read'', ''write'', ''x'']"
proof -
  let ?s' = "snd (analyze d (LexicalAnalyzer_init src))"
  have reg: "registered ?s'" by (rule registered_analyze)
  then have ent: "n \<noteq> ''read'' \<Longrightarrow> n \<noteq> ''write'' \<Longrightarrow>
      entries (symbol_table ?s') n =
        (if identifier_seen ?s' n then [(n, SymbolInfo_init n ''unknown'')] else [])" for n
    by (simp add: registered_def)
  have kw: "entries (symbol_table ?s') k = []" if k: "map_of KEYWORDS k \<noteq> None"
  proof -
    from k builtin_not_keyword have kb: "k \<noteq> ''read''" "k \<noteq> ''write''" by auto
    from reg have tokkw: "\<forall>t\<in>set (tokens ?s').
        tok_type t = IDENTIFIER \<longrightarrow> map_of KEYWORDS (tok_value t) = None"
      by (simp add: registered_def)
    have "\<not> identifier_seen ?s' k"
    proof
      assume "identifier_seen ?s' k"
      then obtain t where t: "t \<in> set (tokens ?s')" "tok_type t = IDENTIFIER" "tok_value t = k"
        by (auto simp: identifier_seen_def)
      from tokkw t(1,2) have "map_of KEYWORDS (tok_value t) = None" by simp
      with k t(3) show False by simp
    qed
    with ent [OF kb] show ?thesis by simp
  qed
  let ?J = "LexicalAnalyzer_init ''int x; int x;''"
  have f: "fst (analyze (Suc 0) ?J) \<noteq> Inl RecursionError"
    by code_simp
  have g: "map fst (symbols (symbol_table (snd (analyze (Suc 0) ?J)))) =
     [''read'', ''write'', ''x'']"
    by code_simp
  have "analyze (Suc 0 + e) ?J = analyze (Suc 0) ?J"
    using f by (rule analyze_more)
  with g have ex: "map fst (symbols (symbol_table (snd (analyze (Suc e) ?J)))) =
     [''read'', ''write'', ''x'']"
    by simp
  have c1: "next_token d s = (Inr tok, s') \<longrightarrow> tok_type tok = IDENTIFIER \<longrightarrow>
      lookup (symbol_table s) (tok_value tok) = None \<longrightarrow>
      symbol_table s' =
        insert_symbol (symbol_table s) (tok_value tok)
          (SymbolInfo_init (tok_value tok) ''unknown'')"
    using next_token_registers [of d s tok s'] by simp
  have c2: "lookup (symbol_table s) n = Some i \<longrightarrow>
      lookup (symbol_table (snd (next_token d s))) n = Some i"
    using next_token_lookup [of s n i d] by simp
  have c3: "m \<noteq> ''read'' \<longrightarrow> m \<noteq> ''write'' \<longrightarrow>
      entries (symbol_table ?s') m =
        (if identifier_seen ?s' m then [(m, SymbolInfo_init m ''unknown'')] else [])"
    using ent [of m] by simp
  have c4: "map_of KEYWORDS k \<noteq> None \<longrightarrow> entries (symbol_table ?s') k = []"
    using kw by simp
  show ?thesis
    by (intro conjI) (rule c1, rule c2, rule c3, rule c4, rule ex)
qed

theorem identifier_registration_witness:
  "next_token (Suc 0) (LexicalAnalyzer_init ''x'') =
     (Inr (Token IDENTIFIER ''x'' 1 1), snd (next_token (Suc 0) (LexicalAnalyzer_init ''x''))) \<and>
   lookup (symbol_table (LexicalAnalyzer_init ''x'')) ''x'' = None \<and>
   symbol_table (snd (next_token (Suc 0) (LexicalAnalyzer_init ''x''))) =
     insert_symbol (symbol_table (LexicalAnalyzer_init ''x'')) ''x''
       (SymbolInfo_init ''x'' ''unknown'') \<and>
   lookup (symbol_table (LexicalAnalyzer_init ''x'')) ''read'' = Some read_info \<and>
   lookup (symbol_table (snd (next_token (Suc 0) (LexicalAnalyzer_init ''x'')))) ''read'' =
     Some read_info \<and>
   identifier_seen (snd (analyze (Suc 0) (LexicalAnalyzer_init ''int x; int x;''))) ''x'' \<and>
   entries (symbol_table (snd (analyze (Suc 0) (LexicalAnalyzer_init ''int x; int x;'')))) ''x'' =
     [(''x'', SymbolInfo_init ''x'' ''unknown'')] \<and>
   map_of KEYWORDS ''int'' = Some INT_KW \<and>
   entries (symbol_table (snd (analyze (Suc 0) (LexicalAnalyzer_init ''int x; int x;''))))
     ''int'' = []"
proof -
  let ?I = "LexicalAnalyzer_init ''x''"
  have "fst (next_token (Suc 0) ?I) = Inr (Token IDENTIFIER ''x'' 1 1)" by code_simp
  then have h1: "next_token (Suc 0) ?I =
      (Inr (Token IDENTIFIER ''x'' 1 1), snd (next_token (Suc 0) ?I))"
    by (simp add: prod_eq_iff)
  have h2: "tok_type (Token IDENTIFIER ''x'' 1 1) = IDENTIFIER" by simp
  have h3: "lookup (symbol_table ?I) (tok_value (Token IDENTIFIER ''x'' 1 1)) = None"
    by code_simp
  have h4: "lookup (symbol_table ?I) ''read'' = Some read_info" by code_simp
  have h5: "identifier_seen (snd (analyze (Suc 0) (LexicalAnalyzer_init ''int x; int x;''))) ''x''"
    by code_simp
  have h6: "map_of KEYWORDS ''int'' = Some INT_KW" by code_simp
  have h7: "''x'' \<noteq> ''read''" "''x'' \<noteq> ''write''" by simp_all
  from identifier_registration
    [where d = "Suc 0" and s = ?I and tok = "Token IDENTIFIER ''x'' 1 1"
      and s' = "snd (next_token (Suc 0) ?I)" and n = "''read''" and i = read_info
      and m = "''x''" and src = "''int x; int x;''" and k = "''int''" and e = 0]
    h1 h2 h3 h4 h5 h6 h7
  show ?thesis by (simp add: lookup_insert_other)
qed

end
